theory Spec2Isabelle
  imports Main "HOL-Library.Sublist"
begin

section \<open>Data model (model.ts)\<close>

text \<open>
  Values a callback can throw. The source tests a caught value in two ways:
  \<^verbatim>\<open>if (error) throw error\<close> (truthiness, in \<^verbatim>\<open>wrapHooks\<close>) and
  \<^verbatim>\<open>endMessage.error != null\<close> (not null and not undefined, in the runner), so
  the model keeps three classes of values apart: null/undefined, the other falsy values
  (0, the empty string, false, NaN) and objects such as errors.
\<close>

datatype thrown = Nullish | Falsy | Error string | TimeoutError nat

fun truthy :: "thrown \<Rightarrow> bool" where
  "truthy Nullish = False"
| "truthy Falsy = False"
| "truthy (Error m) = True"
| "truthy (TimeoutError ms) = True"

text \<open>
  A hook callback \<^verbatim>\<open>() => void | Promise<void>\<close> is opaque: the model gives it an
  identity and what a call does: it returns (or its promise fulfils), it throws
  synchronously, or it returns a promise that rejects. Hooks settle without waiting for a
  timer. A test body also has the time in milliseconds after which it settles.
\<close>

datatype settles = Returns | Throws thrown | Rejects thrown

record hook =
  ident :: nat
  effect :: settles

record body =
  dur :: nat
  result :: "thrown option"

text \<open>Scope frames are shared objects; a frame reference is an index into the heap.\<close>

type_synonym fid = nat

record StackItem =
  beforeAll :: "hook list"
  beforeEach :: "hook list"
  afterEach :: "hook list"
  afterAll :: "hook list"
  waiting :: nat
  completed :: nat
  only :: nat
  completedOnly :: nat
  name :: string

text \<open>
  A test definition. After registration \<^verbatim>\<open>fn\<close> is the function built by
  \<^verbatim>\<open>wrapHooks\<close>, a closure over the original function, the \<^verbatim>\<open>only\<close> flag and
  the copied stack; the model keeps the original body and adds the captured frame
  references as the field \<open>hooks\<close>.
\<close>

record TestDefinition =
  fn :: body
  name :: string
  ignore :: bool
  only :: bool
  timeout :: nat
  hooks :: "fid list"

datatype status = Ignored | Passed | Failed

record TestEnd =
  name :: string
  duration :: nat
  status :: "status option"
  error :: "thrown option"

record stats =
  filtered :: nat
  ignored :: nat
  passed :: nat
  failed :: nat

record SuiteEnd = stats +
  usedOnly :: bool
  duration :: nat
  results :: "TestEnd list"
  timeout :: "nat option"

datatype TestEvent =
    EvStart "TestDefinition list"
  | EvTestStart TestDefinition
  | EvTestEnd TestEnd
  | EvEnd SuiteEnd

text \<open>
  A filter or skip option is a \<^verbatim>\<open>RegExp\<close> object or a string. A regular expression is
  represented by its source; what \<^verbatim>\<open>RegExp.prototype.test\<close> answers is a parameter
  \<open>rx\<close> of the functions that need it (pattern source, then subject).
\<close>

datatype pattern = RegExp string | Str string

record RunOptions =
  reset :: "bool option"
  timeout :: "nat option"
  exit :: "bool option"
  failFast :: "bool option"
  filterOpt :: "pattern option"
  skip :: "pattern option"

record Deferred =
  pending :: bool
  promise :: nat

datatype phase = BeforeAll | BeforeEach | AfterEach | AfterAll

datatype call = Hook phase fid nat | Body string

text \<open>
  The suite object together with the part of the JavaScript world its methods touch: the
  heap of frames, the promises created by \<^verbatim>\<open>deferred\<close> (\<open>None\<close> while unsettled),
  the callbacks called so far, the clock read by \<^verbatim>\<open>+new Date()\<close>, and the wrapped
  functions that lost the race against their timer and are still running (with the time
  at which their own body settles).
\<close>

record Suite =
  name :: string
  options :: RunOptions
  stack :: "fid list"
  registry :: "TestDefinition list"
  cache :: Deferred
  endPromise :: nat
  heap :: "StackItem list"
  promises :: "SuiteEnd option list"
  calls :: "call list"
  now :: nat
  late :: "(nat \<times> TestDefinition) list"

section \<open>Hook composition (testing.ts, wrapHooks)\<close>

text \<open>
  \<^verbatim>\<open>await Promise.all(fns.map((fn) => fn()))\<close>: the callbacks are called in order. A
  synchronous throw leaves \<^verbatim>\<open>map\<close> at once, so the later callbacks are not called
  and that value is the rejection; otherwise all are called and the first rejected promise
  decides.
\<close>

fun invoked :: "hook list \<Rightarrow> hook list" where
  "invoked [] = []"
| "invoked (h # hs) = (case effect h of Throws e \<Rightarrow> [h] | _ \<Rightarrow> h # invoked hs)"

fun firstThrow :: "hook list \<Rightarrow> thrown option" where
  "firstThrow [] = None"
| "firstThrow (h # hs) = (case effect h of Throws e \<Rightarrow> Some e | _ \<Rightarrow> firstThrow hs)"

fun firstReject :: "hook list \<Rightarrow> thrown option" where
  "firstReject [] = None"
| "firstReject (h # hs) = (case effect h of Rejects e \<Rightarrow> Some e | _ \<Rightarrow> firstReject hs)"

definition callAll :: "phase \<Rightarrow> fid \<Rightarrow> hook list \<Rightarrow> Suite \<Rightarrow> thrown option \<times> Suite" where
  "callAll p f fns s =
     ((case firstThrow fns of Some e \<Rightarrow> Some e | None \<Rightarrow> firstReject fns),
      s\<lparr>calls := calls s @ map (\<lambda>h. Hook p f (ident h)) (invoked fns)\<rparr>)"

text \<open>The setup loop of the wrapped function, over the copied stack from the outermost frame.\<close>

fun beforeLoop :: "fid list \<Rightarrow> Suite \<Rightarrow> thrown option \<times> Suite" where
  "beforeLoop [] s = (None, s)"
| "beforeLoop (f # fs) s =
     (let fr = heap s ! f in
      case (if completed fr = 0 then callAll BeforeAll f (beforeAll fr) s else (None, s)) of
        (Some e, s1) \<Rightarrow> (Some e, s1)
      | (None, s1) \<Rightarrow>
          (case callAll BeforeEach f (beforeEach fr) s1 of
             (Some e, s2) \<Rightarrow> (Some e, s2)
           | (None, s2) \<Rightarrow> beforeLoop fs s2))"

text \<open>\<^verbatim>\<open>hook.completed++; if (only) hook.completedOnly++\<close> for every captured frame.\<close>

definition bump :: "bool \<Rightarrow> StackItem \<Rightarrow> StackItem" where
  "bump o' fr =
     (let fr1 = fr\<lparr>completed := completed fr + 1\<rparr>
      in if o' then fr1\<lparr>completedOnly := completedOnly fr1 + 1\<rparr> else fr1)"

fun complete :: "bool \<Rightarrow> fid list \<Rightarrow> Suite \<Rightarrow> Suite" where
  "complete o' [] s = s"
| "complete o' (f # fs) s = complete o' fs (s\<lparr>heap := (heap s)[f := bump o' (heap s ! f)]\<rparr>)"

text \<open>The teardown loop, over the reversed copy of the stack.\<close>

fun afterLoop :: "fid list \<Rightarrow> Suite \<Rightarrow> thrown option \<times> Suite" where
  "afterLoop [] s = (None, s)"
| "afterLoop (f # fs) s =
     (let fr = heap s ! f in
      case callAll AfterEach f (afterEach fr) s of
        (Some e, s1) \<Rightarrow> (Some e, s1)
      | (None, s1) \<Rightarrow>
          (case (if waiting fr = completed fr \<or> (0 < StackItem.only fr \<and> StackItem.only fr = completedOnly fr)
                 then callAll AfterAll f (afterAll fr) s1 else (None, s1)) of
             (Some e, s2) \<Rightarrow> (Some e, s2)
           | (None, s2) \<Rightarrow> afterLoop fs s2))"

text \<open>
  What the wrapped function does once the test body has settled: the counters, the
  teardown, and the rethrow of a truthy error caught from the body.
\<close>

definition finish :: "TestDefinition \<Rightarrow> Suite \<Rightarrow> thrown option \<times> Suite" where
  "finish t s =
     (case afterLoop (rev (hooks t)) (complete (TestDefinition.only t) (hooks t) s) of
        (Some e, s1) \<Rightarrow> (Some e, s1)
      | (None, s1) \<Rightarrow>
          (case result (fn t) of
             Some e \<Rightarrow> if truthy e then (Some e, s1) else (None, s1)
           | None \<Rightarrow> (None, s1)))"

text \<open>
  Time passes only while a test body is awaited. When the clock moves on, the wrapped
  functions left behind by a timeout whose body has settled by then finish first, in the
  order in which their bodies settle; what they throw is lost.
\<close>

fun resume :: "(nat \<times> TestDefinition) list \<Rightarrow> Suite \<Rightarrow> Suite" where
  "resume [] s = s"
| "resume (e # es) s = resume es (snd (finish (snd e) s))"

fun enqueue :: "nat \<times> TestDefinition \<Rightarrow> (nat \<times> TestDefinition) list \<Rightarrow> (nat \<times> TestDefinition) list" where
  "enqueue e [] = [e]"
| "enqueue e (x # xs) = (if fst e < fst x then e # x # xs else x # enqueue e xs)"

definition advance :: "nat \<Rightarrow> Suite \<Rightarrow> Suite" where
  "advance d s =
     (if d = 0 then s
      else let t = now s + d in
        resume (filter (\<lambda>e. fst e \<le> t) (late s))
          (s\<lparr>now := t, late := filter (\<lambda>e. \<not> fst e \<le> t) (late s)\<rparr>))"

text \<open>The wrapped function run to its end, as \<^verbatim>\<open>await test.fn()\<close> would.\<close>

definition logBody :: "TestDefinition \<Rightarrow> Suite \<Rightarrow> Suite" where
  "logBody t s = s\<lparr>calls := calls s @ [Body (TestDefinition.name t)]\<rparr>"

definition wrappedFn :: "TestDefinition \<Rightarrow> Suite \<Rightarrow> thrown option \<times> Suite" where
  "wrappedFn t s =
     (case beforeLoop (hooks t) s of
        (Some e, s1) \<Rightarrow> (Some e, s1)
      | (None, s1) \<Rightarrow> finish t (advance (dur (fn t)) (logBody t s1)))"

section \<open>The timeout race (utils.ts)\<close>

text \<open>
  \<^verbatim>\<open>timeout(test.fn(), test.timeout)\<close>. A rejection in the setup phase and a body
  that settles without a timer are there before any timer fires. Otherwise the timer wins
  unless the body settles strictly earlier; the wrapped function then goes on in the
  background and finishes when its body settles.
\<close>

definition timeoutRace :: "TestDefinition \<Rightarrow> Suite \<Rightarrow> thrown option \<times> Suite" where
  "timeoutRace t s =
     (case beforeLoop (hooks t) s of
        (Some e, s1) \<Rightarrow> (Some e, s1)
      | (None, s1) \<Rightarrow>
          (let s2 = logBody t s1; d = dur (fn t); ms = TestDefinition.timeout t in
           if d = 0 \<or> d < ms then finish t (advance d s2)
           else (let s3 = advance ms s2
                 in (Some (TimeoutError ms), s3\<lparr>late := enqueue (now s2 + d, t) (late s3)\<rparr>))))"

section \<open>Filtering (testing.ts, createFilterFn)\<close>

text \<open>\<^verbatim>\<open>String.prototype.includes\<close>, \<^verbatim>\<open>startsWith\<close> and \<^verbatim>\<open>endsWith\<close> on one character.\<close>

fun includesStr :: "string \<Rightarrow> string \<Rightarrow> bool" where
  "includesStr [] sub = (sub = [])"
| "includesStr (c # cs) sub = (prefix sub (c # cs) \<or> includesStr cs sub)"

definition startsWith :: "string \<Rightarrow> char \<Rightarrow> bool" where
  "startsWith s c = (case s of [] \<Rightarrow> False | x # xs \<Rightarrow> x = c)"

definition endsWith :: "string \<Rightarrow> char \<Rightarrow> bool" where
  "endsWith s c = (case rev s of [] \<Rightarrow> False | x # xs \<Rightarrow> x = c)"

text \<open>\<^verbatim>\<open>filter.slice(1, filter.length - 1)\<close>.\<close>

definition slice1 :: "string \<Rightarrow> string" where
  "slice1 s = take (length s - 1 - 1) (drop 1 s)"

text \<open>
  The options are tested for truthiness first: an absent option and the empty string
  switch the filter off, a \<^verbatim>\<open>RegExp\<close> object is always truthy.
\<close>

fun given :: "pattern option \<Rightarrow> bool" where
  "given None = False"
| "given (Some (RegExp r)) = True"
| "given (Some (Str x)) = (x \<noteq> [])"

definition createFilterFn ::
  "(string \<Rightarrow> string \<Rightarrow> bool) \<Rightarrow> pattern option \<Rightarrow> pattern option \<Rightarrow> TestDefinition \<Rightarrow> bool" where
  "createFilterFn rx filter' skip' def =
     (let passes = True;
          passes =
            (if given filter' then
               (case the filter' of
                  RegExp r \<Rightarrow> passes \<and> rx r (TestDefinition.name def)
                | Str x \<Rightarrow>
                    if startsWith x CHR ''/'' \<and> endsWith x CHR ''/''
                    then passes \<and> rx (slice1 x) (TestDefinition.name def)
                    else passes \<and> includesStr (TestDefinition.name def) x)
             else passes);
          passes =
            (if given skip' then
               (case the skip' of
                  RegExp r \<Rightarrow> passes \<and> \<not> rx r (TestDefinition.name def)
                | Str x \<Rightarrow> passes \<and> \<not> includesStr (TestDefinition.name def) x)
             else passes)
      in passes)"

section \<open>The runner (runner.ts)\<close>

record TestRunner =
  usedOnly' :: bool
  stats' :: stats
  failFast' :: bool
  testsToRun :: "TestDefinition list"

definition newTestRunner ::
  "TestDefinition list \<Rightarrow> (TestDefinition \<Rightarrow> bool) \<Rightarrow> bool \<Rightarrow> TestRunner" where
  "newTestRunner tests filterFn ff =
     (let onlyTests = filter TestDefinition.only tests;
          used = (0 < length onlyTests);
          unfilteredTests = (if used then onlyTests else tests);
          toRun = filter filterFn unfilteredTests
      in \<lparr>usedOnly' = used,
          stats' = \<lparr>filtered = length unfilteredTests - length toRun,
                    ignored = 0, passed = 0, failed = 0\<rparr>,
          failFast' = ff,
          testsToRun = toRun\<rparr>)"

text \<open>
  The body of the \<^verbatim>\<open>for\<close> loop between the two \<^verbatim>\<open>yield\<close>s: \<open>end'\<close> starts as
  \<open>start\<close> and is read again only when the race is won.
\<close>

definition runTest :: "TestDefinition \<Rightarrow> stats \<Rightarrow> Suite \<Rightarrow> TestEnd \<times> stats \<times> Suite" where
  "runTest test st s =
     (let endMessage = \<lparr>TestEnd.name = TestDefinition.name test, duration = 0,
                         status = None, error = None\<rparr>
      in if ignore test
         then (endMessage\<lparr>status := Some Ignored\<rparr>, st\<lparr>ignored := ignored st + 1\<rparr>, s)
         else
           (let start = now s; end' = start in
            case timeoutRace test s of
              (None, s1) \<Rightarrow>
                (let end' = now s1
                 in (endMessage\<lparr>status := Some Passed, TestEnd.duration := end' - start\<rparr>,
                     st\<lparr>passed := passed st + 1\<rparr>, s1))
            | (Some err, s1) \<Rightarrow>
                (endMessage\<lparr>status := Some Failed, error := Some err,
                            TestEnd.duration := end' - start\<rparr>,
                 st\<lparr>failed := failed st + 1\<rparr>, s1)))"

text \<open>\<^verbatim>\<open>endMessage.error != null\<close>.\<close>

definition hasError :: "TestEnd \<Rightarrow> bool" where
  "hasError e = (case error e of None \<Rightarrow> False | Some v \<Rightarrow> v \<noteq> Nullish)"

text \<open>
  The suite-level timer of \<^verbatim>\<open>run\<close> sets \<^verbatim>\<open>timedOut\<close>; the consumer of the
  generator tests the flag at every message and leaves the loop before handling it, which
  abandons the generator at that \<^verbatim>\<open>yield\<close>. The timer is started before any test
  timer, so it has fired once the clock has reached its time. A runner iterated on its own
  has no such timer (\<open>None\<close>).
\<close>

definition timedOut :: "nat option \<Rightarrow> Suite \<Rightarrow> bool" where
  "timedOut due s = (case due of None \<Rightarrow> False | Some t \<Rightarrow> t \<le> now s)"

record progress =
  abandoned :: bool
  counts :: stats
  outcomes :: "TestEnd list"
  messages :: "TestEvent list"
  world :: Suite

text \<open>A message handed to the consumer that does not leave the loop at it.\<close>

definition yield :: "TestEvent \<Rightarrow> progress \<Rightarrow> progress" where
  "yield m p = p\<lparr>messages := messages p @ [m]\<rparr>"

text \<open>The \<^verbatim>\<open>for (const test of this.testsToRun)\<close> loop of the generator.\<close>

fun forTests :: "bool \<Rightarrow> nat option \<Rightarrow> TestDefinition list \<Rightarrow> progress \<Rightarrow> progress" where
  "forTests ff due [] p = p"
| "forTests ff due (test # tests) p =
     (if timedOut due (world p) then p\<lparr>abandoned := True\<rparr>
      else
        (let p1 = yield (EvTestStart test) p in
         case runTest test (counts p1) (world p1) of
           (endMessage, st, s) \<Rightarrow>
             (let p2 = p1\<lparr>counts := st, outcomes := outcomes p1 @ [endMessage], world := s\<rparr>
              in if timedOut due s then p2\<lparr>abandoned := True\<rparr>
                 else
                   (let p3 = yield (EvTestEnd endMessage) p2
                    in if ff \<and> hasError endMessage then p3 else forTests ff due tests p3))))"

text \<open>
  The whole generator as the consumer sees it: the messages handled, the end message if it
  was reached, and the world afterwards.
\<close>

definition iterate :: "TestRunner \<Rightarrow> nat option \<Rightarrow> Suite \<Rightarrow> TestEvent list \<times> SuiteEnd option \<times> Suite" where
  "iterate r due s =
     (if timedOut due s then ([], None, s)
      else
        (let suiteStart = now s;
             p = forTests (failFast' r) due (testsToRun r)
                   \<lparr>abandoned = False, counts = stats' r, outcomes = [],
                    messages = [EvStart (testsToRun r)], world = s\<rparr>
         in if abandoned p then (messages p, None, world p)
            else
              (let e = stats.extend (counts p)
                         (SuiteEnd.fields (usedOnly' r) (now (world p) - suiteStart) (outcomes p) None)
               in if timedOut due (world p) then (messages p, None, world p)
                  else (messages p @ [EvEnd e], Some e, world p))))"

section \<open>The suite (testing.ts, class Suite)\<close>

definition newContext :: "string \<Rightarrow> StackItem" where
  "newContext n =
     \<lparr>beforeAll = [], beforeEach = [], afterEach = [], afterAll = [],
      waiting = 0, completed = 0, only = 0, completedOnly = 0, StackItem.name = n\<rparr>"

text \<open>
  \<^verbatim>\<open>deferred()\<close> copies the value of its local variable \<^verbatim>\<open>pending\<close>, which is
  \<^verbatim>\<open>true\<close> at that moment, into the object it returns. The \<^verbatim>\<open>finally\<close> callback
  assigns the local variable; no statement of the source assigns the property.
\<close>

definition deferred :: "Suite \<Rightarrow> Deferred \<times> Suite" where
  "deferred s =
     (\<lparr>pending = True, promise = length (promises s)\<rparr>, s\<lparr>promises := promises s @ [None]\<rparr>)"

text \<open>Resolving a promise that is already settled changes nothing.\<close>

definition resolve :: "Deferred \<Rightarrow> SuiteEnd \<Rightarrow> Suite \<Rightarrow> Suite" where
  "resolve d v s =
     (case promises s ! promise d of
        None \<Rightarrow> s\<lparr>promises := (promises s)[promise d := Some v]\<rparr>
      | Some w \<Rightarrow> s)"

definition defaultRunOptions :: RunOptions where
  "defaultRunOptions =
     \<lparr>reset = None, timeout = Some 5000, exit = Some True, failFast = Some False,
      filterOpt = None, skip = None\<rparr>"

text \<open>\<^verbatim>\<open>{ ...a, ...b }\<close> on run options; \<open>None\<close> is an option that is not given.\<close>

definition orElse :: "'a option \<Rightarrow> 'a option \<Rightarrow> 'a option" where
  "orElse b a = (case b of Some v \<Rightarrow> Some v | None \<Rightarrow> a)"

definition spread :: "RunOptions \<Rightarrow> RunOptions \<Rightarrow> RunOptions" where
  "spread a b =
     \<lparr>reset = orElse (reset b) (reset a),
      timeout = orElse (RunOptions.timeout b) (RunOptions.timeout a),
      exit = orElse (exit b) (exit a),
      failFast = orElse (failFast b) (failFast a),
      filterOpt = orElse (filterOpt b) (filterOpt a),
      skip = orElse (skip b) (skip a)\<rparr>"

text \<open>
  The constructor, from a world with clock \<open>t0\<close> and nothing else in it. Frame 0 is the
  root frame, promise 0 is the promise that \<^verbatim>\<open>end\<close> keeps for the life of the suite.
\<close>

definition newSuite :: "string \<Rightarrow> RunOptions \<Rightarrow> nat \<Rightarrow> Suite" where
  "newSuite n opts t0 =
     \<lparr>Suite.name = n,
      options = spread defaultRunOptions opts,
      stack = [0],
      registry = [],
      cache = \<lparr>pending = True, promise = 0\<rparr>,
      endPromise = 0,
      heap = [newContext n],
      promises = [None],
      calls = [],
      now = t0,
      late = []\<rparr>"

definition top :: "Suite \<Rightarrow> fid" where
  "top s = last (stack s)"

text \<open>The four hook methods push the callback onto a list of the top frame.\<close>

definition addHook :: "phase \<Rightarrow> hook \<Rightarrow> Suite \<Rightarrow> Suite" where
  "addHook p h s =
     (let fr = heap s ! top s;
          fr1 = (case p of
                   BeforeAll \<Rightarrow> fr\<lparr>beforeAll := beforeAll fr @ [h]\<rparr>
                 | BeforeEach \<Rightarrow> fr\<lparr>beforeEach := beforeEach fr @ [h]\<rparr>
                 | AfterEach \<Rightarrow> fr\<lparr>afterEach := afterEach fr @ [h]\<rparr>
                 | AfterAll \<Rightarrow> fr\<lparr>afterAll := afterAll fr @ [h]\<rparr>)
      in s\<lparr>heap := (heap s)[top s := fr1]\<rparr>)"

definition push :: "string \<Rightarrow> Suite \<Rightarrow> Suite" where
  "push n s = s\<lparr>stack := stack s @ [length (heap s)], heap := heap s @ [newContext n]\<rparr>"

definition pop :: "Suite \<Rightarrow> Suite" where
  "pop s = s\<lparr>stack := butlast (stack s)\<rparr>"

definition reset' :: "Suite \<Rightarrow> Suite" where
  "reset' s =
     (case deferred s of
        (d, s1) \<Rightarrow>
          s1\<lparr>cache := d, registry := [],
             stack := [length (heap s1)], heap := heap s1 @ [newContext (Suite.name s1)]\<rparr>)"

datatype TypeError = MissingTestFunction | EmptyTestName

text \<open>
  The two overloads of \<^verbatim>\<open>test\<close>: a name with a function, or a definition object with
  the fields \<^verbatim>\<open>fn\<close>, \<^verbatim>\<open>name\<close>, \<^verbatim>\<open>ignore\<close>, \<^verbatim>\<open>only\<close> and \<^verbatim>\<open>timeout\<close> in
  this order (a missing name is the empty string). A definition that passes the checks
  has a number as its timeout.
\<close>

datatype testArg =
    ByName string "body option"
  | ByDef "body option" string "bool option" "bool option" "nat option"

definition orDefault :: "'a option \<Rightarrow> 'a \<Rightarrow> 'a" where
  "orDefault x d = (case x of Some v \<Rightarrow> v | None \<Rightarrow> d)"

fun testDefOf :: "testArg \<Rightarrow> TypeError + TestDefinition" where
  "testDefOf (ByName t f) =
     (case f of
        None \<Rightarrow> Inl MissingTestFunction
      | Some b \<Rightarrow>
          if t = [] then Inl EmptyTestName
          else Inr \<lparr>fn = b, TestDefinition.name = t, ignore = False,
                    TestDefinition.only = False, TestDefinition.timeout = 2000, hooks = []\<rparr>)"
| "testDefOf (ByDef f n ig on tm) =
     (case f of
        None \<Rightarrow> Inl MissingTestFunction
      | Some b \<Rightarrow>
          if n = [] then Inl EmptyTestName
          else Inr \<lparr>fn = b, TestDefinition.name = n, ignore = orDefault ig False,
                    TestDefinition.only = orDefault on False,
                    TestDefinition.timeout = orDefault tm 2000, hooks = []\<rparr>)"

definition wrapHooks :: "TestDefinition \<Rightarrow> fid list \<Rightarrow> TestDefinition" where
  "wrapHooks testDef hs = testDef\<lparr>hooks := hs\<rparr>"

fun join :: "string \<Rightarrow> string list \<Rightarrow> string" where
  "join sep [] = []"
| "join sep [x] = x"
| "join sep (x # y # ys) = x @ sep @ join sep (y # ys)"

text \<open>\<^verbatim>\<open>this.#stack.map((name) => name.waiting++)\<close>, and the same for \<^verbatim>\<open>only\<close>.\<close>

fun incWaiting :: "fid list \<Rightarrow> StackItem list \<Rightarrow> StackItem list" where
  "incWaiting [] h = h"
| "incWaiting (f # fs) h = incWaiting fs (h[f := (h ! f)\<lparr>waiting := waiting (h ! f) + 1\<rparr>])"

fun incOnly :: "fid list \<Rightarrow> StackItem list \<Rightarrow> StackItem list" where
  "incOnly [] h = h"
| "incOnly (f # fs) h = incOnly fs (h[f := (h ! f)\<lparr>StackItem.only := StackItem.only (h ! f) + 1\<rparr>])"

definition test :: "testArg \<Rightarrow> Suite \<Rightarrow> TypeError + Suite" where
  "test a s =
     (case testDefOf a of
        Inl e \<Rightarrow> Inl e
      | Inr testDef \<Rightarrow>
          (let s1 = (if \<not> ignore testDef then s\<lparr>heap := incWaiting (stack s) (heap s)\<rparr> else s);
               s2 = (if TestDefinition.only testDef
                     then s1\<lparr>heap := incOnly (stack s1) (heap s1)\<rparr> else s1);
               name' = map (\<lambda>f. StackItem.name (heap s2 ! f)) (stack s2) @ [TestDefinition.name testDef];
               testDef1 = testDef\<lparr>TestDefinition.name := join '' > '' name'\<rparr>;
               copy = stack s2
           in Inr (s2\<lparr>registry := registry s2 @ [wrapHooks testDef1 copy]\<rparr>)))"

text \<open>
  A registration script: what the caller does between the constructor and \<^verbatim>\<open>run\<close>.
  \<open>Group n items\<close> is \<^verbatim>\<open>group(n, fn)\<close> with a callback that performs \<open>items\<close>;
  a \<^verbatim>\<open>TypeError\<close> thrown inside leaves through \<^verbatim>\<open>group\<close> before the frame is
  popped.
\<close>

datatype item = Test testArg | AddHook phase hook | Group string "item list"

fun register :: "item \<Rightarrow> Suite \<Rightarrow> TypeError + Suite"
  and registerAll :: "item list \<Rightarrow> Suite \<Rightarrow> TypeError + Suite" where
  "register (Test a) s = test a s"
| "register (AddHook p h) s = Inr (addHook p h s)"
| "register (Group n items) s =
     (case registerAll items (push n s) of Inl e \<Rightarrow> Inl e | Inr s1 \<Rightarrow> Inr (pop s1))"
| "registerAll [] s = Inr s"
| "registerAll (i # items) s =
     (case register i s of Inl e \<Rightarrow> Inl e | Inr s1 \<Rightarrow> registerAll items s1)"

definition emptyEndMsg :: SuiteEnd where
  "emptyEndMsg =
     \<lparr>filtered = 0, ignored = 0, passed = 0, failed = 0,
      usedOnly = False, duration = 0, results = [], timeout = None\<rparr>"

text \<open>
  How a call of \<^verbatim>\<open>run\<close> ends: it returns a result, it ends the process through
  \<^verbatim>\<open>exit(1)\<close>, or it awaits a promise that is not settled.
\<close>

datatype completion = Returned SuiteEnd | Exited nat | Unsettled

text \<open>
  \<^verbatim>\<open>run(opts)\<close>. The reporter, \<^verbatim>\<open>onMessage\<close> and \<^verbatim>\<open>disableLog\<close> only observe
  the messages; the model returns the messages handed to them.
\<close>

definition run ::
  "(string \<Rightarrow> string \<Rightarrow> bool) \<Rightarrow> RunOptions \<Rightarrow> Suite \<Rightarrow> completion \<times> TestEvent list \<times> Suite" where
  "run rx opts s =
     (if \<not> pending (cache s)
      then ((case promises s ! endPromise s of Some v \<Rightarrow> Returned v | None \<Rightarrow> Unsettled), [], s)
      else
        (let opt = spread (options s) opts;
             filterFn = createFilterFn rx (filterOpt opt) (skip opt);
             due = (case RunOptions.timeout opt of
                      None \<Rightarrow> None
                    | Some ms \<Rightarrow> if ms = 0 then None else Some (now s + ms));
             runner = newTestRunner (registry s) filterFn (orDefault (failFast opt) False)
         in case iterate runner due s of
              (msgs, endMsg, s1) \<Rightarrow>
                (let endMsg1 =
                       (if timedOut due s1
                        then Some ((orDefault endMsg emptyEndMsg)
                                     \<lparr>SuiteEnd.timeout := Some (orDefault (RunOptions.timeout opt) 0)\<rparr>)
                        else endMsg);
                     final = orDefault endMsg1 emptyEndMsg;
                     s2 = resolve (cache s1) final s1
                 in if (case endMsg1 of
                          None \<Rightarrow> False
                        | Some e \<Rightarrow> (0 < failed e \<or> usedOnly e) \<and> orDefault (exit opt) False)
                    then (Exited 1, msgs, s2)
                    else (Returned final, msgs, if orDefault (reset opt) False then reset' s2 else s2))))"

section \<open>Notions used to state the properties\<close>

text \<open>The tests started and the outcomes reported in a stream of messages.\<close>

fun testStarts :: "TestEvent list \<Rightarrow> TestDefinition list" where
  "testStarts [] = []"
| "testStarts (EvTestStart t # es) = t # testStarts es"
| "testStarts (e # es) = testStarts es"

fun testEnds :: "TestEvent list \<Rightarrow> TestEnd list" where
  "testEnds [] = []"
| "testEnds (EvTestEnd x # es) = x # testEnds es"
| "testEnds (e # es) = testEnds es"

definition withStatus :: "status \<Rightarrow> TestEnd list \<Rightarrow> nat" where
  "withStatus st rs = length (filter (\<lambda>x. status x = Some st) rs)"

text \<open>The counters of the runner agree with the outcomes collected so far.\<close>

definition tallied :: "stats \<Rightarrow> TestEnd list \<Rightarrow> bool" where
  "tallied st rs =
     (passed st = withStatus Passed rs \<and> failed st = withStatus Failed rs \<and>
      ignored st = withStatus Ignored rs \<and> passed st + failed st + ignored st = length rs)"

text \<open>In a stream of messages, an outcome that carries an error is the last message.\<close>

fun haltsAtError :: "TestEvent list \<Rightarrow> bool" where
  "haltsAtError [] = True"
| "haltsAtError (EvTestEnd x # es) = ((hasError x \<longrightarrow> es = []) \<and> haltsAtError es)"
| "haltsAtError (e # es) = haltsAtError es"

text \<open>Run options with nothing given, and a test body that returns at once.\<close>

definition noOptions :: RunOptions where
  "noOptions =
     \<lparr>reset = None, timeout = None, exit = None, failFast = None, filterOpt = None, skip = None\<rparr>"

definition instant :: body where
  "instant = \<lparr>dur = 0, result = None\<rparr>"

text \<open>
  Three tests A, B and C registered in this order, B throwing an error; and a suite with one
  plain test and two focused ones.
\<close>

definition abcSuite :: Suite where
  "abcSuite =
     (case registerAll
             [Test (ByName ''A'' (Some instant)),
              Test (ByName ''B'' (Some \<lparr>dur = 0, result = Some (Error ''boom'')\<rparr>)),
              Test (ByName ''C'' (Some instant))]
             (newSuite ''s'' noOptions 0) of
        Inr s \<Rightarrow> s
      | Inl e \<Rightarrow> newSuite ''s'' noOptions 0)"

definition focusSuite :: Suite where
  "focusSuite =
     (case registerAll
             [Test (ByName ''plain'' (Some instant)),
              Test (ByDef (Some instant) ''kept'' None (Some True) None),
              Test (ByDef (Some instant) ''dropped'' None (Some True) None)]
             (newSuite ''s'' noOptions 0) of
        Inr s \<Rightarrow> s
      | Inl e \<Rightarrow> newSuite ''s'' noOptions 0)"

text \<open>The calls that the setup loop of a wrapped function makes.\<close>

fun isSetupCall :: "call \<Rightarrow> bool" where
  "isSetupCall (Hook BeforeAll f i) = True"
| "isSetupCall (Hook BeforeEach f i) = True"
| "isSetupCall c = False"


text \<open>
  Counting completions. \<open>credit a b\<close> adds to the two completion counters of a frame and
  leaves the rest of it alone. \<open>share f t\<close> is what running test \<open>t\<close> adds to
  \<open>completed\<close> of frame \<open>f\<close> (the number of times \<open>f\<close> occurs in the copied stack),
  \<open>shareOnly f t\<close> what it adds to \<open>completedOnly\<close>; \<open>owed\<close> and \<open>owedOnly\<close> are
  the same for a test that is still to be run, which is nothing if the test is ignored.
\<close>

definition credit :: "nat \<Rightarrow> nat \<Rightarrow> StackItem \<Rightarrow> StackItem" where
  "credit a b fr = fr\<lparr>completed := completed fr + a, completedOnly := completedOnly fr + b\<rparr>"

definition share :: "fid \<Rightarrow> TestDefinition \<Rightarrow> nat" where
  "share f t = count_list (hooks t) f"

definition shareOnly :: "fid \<Rightarrow> TestDefinition \<Rightarrow> nat" where
  "shareOnly f t = (if TestDefinition.only t then count_list (hooks t) f else 0)"

definition owed :: "fid \<Rightarrow> TestDefinition \<Rightarrow> nat" where
  "owed f t = (if ignore t then 0 else share f t)"

definition owedOnly :: "fid \<Rightarrow> TestDefinition \<Rightarrow> nat" where
  "owedOnly f t = (if ignore t then 0 else shareOnly f t)"

text \<open>
  The bookkeeping of a run for frame \<open>f\<close>: what has been completed, what the tests still
  to run will add and what the wrapped functions left behind by a timeout will add, stay
  within \<open>waiting\<close> and \<open>only\<close>.
\<close>

definition budget :: "fid \<Rightarrow> TestDefinition list \<Rightarrow> Suite \<Rightarrow> bool" where
  "budget f rest s =
     (completed (heap s ! f) + sum_list (map (owed f) rest)
        + sum_list (map (\<lambda>e. share f (snd e)) (late s)) \<le> waiting (heap s ! f)
    \<and> completedOnly (heap s ! f) + sum_list (map (owedOnly f) rest)
        + sum_list (map (\<lambda>e. shareOnly f (snd e)) (late s)) \<le> StackItem.only (heap s ! f))"

text \<open>Between two states the frame \<open>f\<close> changes in its completion counters only.\<close>

definition evolves :: "fid \<Rightarrow> Suite \<Rightarrow> Suite \<Rightarrow> bool" where
  "evolves f s s1 =
     (length (heap s1) = length (heap s) \<and> (\<exists>a b. heap s1 ! f = credit a b (heap s ! f)))"






text \<open>
  No callback of the frames \<open>fs\<close> throws or rejects; and the calls that the setup and the
  teardown of a wrapped function then make for one frame.
\<close>

definition quiet :: "fid list \<Rightarrow> Suite \<Rightarrow> bool" where
  "quiet fs s =
     list_all (\<lambda>f. list_all (\<lambda>h. effect h = Returns)
                  (beforeAll (heap s ! f) @ beforeEach (heap s ! f) @
                   afterEach (heap s ! f) @ afterAll (heap s ! f))) fs"

definition beforeCalls :: "Suite \<Rightarrow> fid \<Rightarrow> call list" where
  "beforeCalls s f =
     (if completed (heap s ! f) = 0
      then map (\<lambda>h. Hook BeforeAll f (ident h)) (beforeAll (heap s ! f)) else [])
     @ map (\<lambda>h. Hook BeforeEach f (ident h)) (beforeEach (heap s ! f))"

definition afterCalls :: "Suite \<Rightarrow> fid \<Rightarrow> call list" where
  "afterCalls s f =
     map (\<lambda>h. Hook AfterEach f (ident h)) (afterEach (heap s ! f))
     @ (if waiting (heap s ! f) = completed (heap s ! f)
           \<or> (0 < StackItem.only (heap s ! f) \<and> StackItem.only (heap s ! f) = completedOnly (heap s ! f))
        then map (\<lambda>h. Hook AfterAll f (ident h)) (afterAll (heap s ! f)) else [])"

text \<open>The list of a frame that holds the callbacks of a phase.\<close>

definition phaseHooks :: "phase \<Rightarrow> StackItem \<Rightarrow> hook list" where
  "phaseHooks p fr =
     (case p of BeforeAll \<Rightarrow> beforeAll fr | BeforeEach \<Rightarrow> beforeEach fr
              | AfterEach \<Rightarrow> afterEach fr | AfterAll \<Rightarrow> afterAll fr)"

text \<open>
  Inside a group \<open>g\<close> of a new suite, a test is registered first and one callback of each
  kind afterwards.
\<close>

definition openScope :: Suite where
  "openScope = push ''g'' (newSuite ''s'' noOptions 0)"

definition scopeWithTest :: Suite where
  "scopeWithTest = (case test (ByName ''one'' (Some instant)) openScope of Inr x \<Rightarrow> x | Inl e \<Rightarrow> openScope)"

definition scopeWithHooks :: Suite where
  "scopeWithHooks =
     addHook AfterAll \<lparr>ident = 4, effect = Returns\<rparr>
       (addHook AfterEach \<lparr>ident = 3, effect = Returns\<rparr>
          (addHook BeforeEach \<lparr>ident = 2, effect = Returns\<rparr>
             (addHook BeforeAll \<lparr>ident = 1, effect = Returns\<rparr> scopeWithTest)))"

text \<open>
  A setup phase that fails. \<open>allReturn fns\<close>: no callback of the list throws or rejects;
  \<open>throwsSync h\<close>: the callback throws before it returns a promise. \<open>failsInAll s f\<close>:
  the \<open>beforeAll\<close> list of frame \<open>f\<close> is called (no test of the frame has completed) and
  fails; \<open>ranSetup s f\<close>: the setup of frame \<open>f\<close> goes through, both lists. For a frame
  whose setup does not go through, \<open>failingPhase\<close> and \<open>failingList\<close> are the phase and
  the list that fail, and \<open>stoppedCalls\<close> the calls made for that frame: the whole
  \<open>beforeAll\<close> list when it was called and went through, then the callbacks of the
  failing list up to and including the first one that throws synchronously, all of them
  when none does (a callback that only rejects does not keep the later ones of its list
  from being called). \<open>stoppedAt s outer f\<close> is the suite after a setup loop that went
  through the frames \<open>outer\<close> and failed in frame \<open>f\<close>: nothing but the log of calls has
  changed, and nothing is logged for a frame after \<open>f\<close>.
\<close>

definition allReturn :: "hook list \<Rightarrow> bool" where
  "allReturn fns = list_all (\<lambda>h. effect h = Returns) fns"

definition throwsSync :: "hook \<Rightarrow> bool" where
  "throwsSync h = (case effect h of Throws v \<Rightarrow> True | _ \<Rightarrow> False)"

definition calledUntilThrow :: "hook list \<Rightarrow> hook list" where
  "calledUntilThrow fns =
     takeWhile (\<lambda>h. \<not> throwsSync h) fns @ take 1 (dropWhile (\<lambda>h. \<not> throwsSync h) fns)"

definition failsInAll :: "Suite \<Rightarrow> fid \<Rightarrow> bool" where
  "failsInAll s f = (completed (heap s ! f) = 0 \<and> \<not> allReturn (beforeAll (heap s ! f)))"

definition ranSetup :: "Suite \<Rightarrow> fid \<Rightarrow> bool" where
  "ranSetup s f = (\<not> failsInAll s f \<and> allReturn (beforeEach (heap s ! f)))"

definition failingPhase :: "Suite \<Rightarrow> fid \<Rightarrow> phase" where
  "failingPhase s f = (if failsInAll s f then BeforeAll else BeforeEach)"

definition failingList :: "Suite \<Rightarrow> fid \<Rightarrow> hook list" where
  "failingList s f =
     (if failsInAll s f then beforeAll (heap s ! f) else beforeEach (heap s ! f))"

definition stoppedCalls :: "Suite \<Rightarrow> fid \<Rightarrow> call list" where
  "stoppedCalls s f =
     (if completed (heap s ! f) = 0 \<and> \<not> failsInAll s f
      then map (\<lambda>h. Hook BeforeAll f (ident h)) (beforeAll (heap s ! f)) else [])
     @ map (\<lambda>h. Hook (failingPhase s f) f (ident h)) (calledUntilThrow (failingList s f))"

definition stoppedAt :: "Suite \<Rightarrow> fid list \<Rightarrow> fid \<Rightarrow> Suite" where
  "stoppedAt s outer f =
     s\<lparr>calls := calls s @ concat (map (beforeCalls s) outer) @ stoppedCalls s f\<rparr>"


lemmas evaluation =
  noOptions_def instant_def newSuite_def spread_def orElse_def defaultRunOptions_def
  newContext_def test_def wrapHooks_def run_def createFilterFn_def startsWith_def endsWith_def
  slice1_def newTestRunner_def iterate_def timedOut_def runTest_def timeoutRace_def logBody_def
  finish_def advance_def callAll_def hasError_def resolve_def orDefault_def emptyEndMsg_def
  reset'_def deferred_def addHook_def push_def pop_def top_def bump_def yield_def
  wrappedFn_def stats.defs SuiteEnd.defs Let_def

section \<open>The runner: counters, focus and fail-fast\<close>

lemma runTest_cases:
  assumes "runTest t st s = (e, st1, s1)"
  shows "TestEnd.name e = TestDefinition.name t \<and> filtered st1 = filtered st \<and>
     ((status e = Some Ignored \<and> error e = None \<and> passed st1 = passed st \<and>
         failed st1 = failed st \<and> ignored st1 = ignored st + 1)
    \<or> (status e = Some Passed \<and> error e = None \<and> passed st1 = passed st + 1 \<and>
         failed st1 = failed st \<and> ignored st1 = ignored st)
    \<or> (status e = Some Failed \<and> passed st1 = passed st \<and>
         failed st1 = failed st + 1 \<and> ignored st1 = ignored st))"
  using assms
  by (auto simp: runTest_def Let_def split: if_splits prod.splits option.splits)

lemma testStarts_append [simp]: "testStarts (xs @ ys) = testStarts xs @ testStarts ys"
  by (induction xs rule: testStarts.induct) auto

lemma testEnds_append [simp]: "testEnds (xs @ ys) = testEnds xs @ testEnds ys"
  by (induction xs rule: testEnds.induct) auto

lemma withStatus_snoc:
  "withStatus st (rs @ [e]) = withStatus st rs + (if status e = Some st then 1 else 0)"
  by (simp add: withStatus_def)

lemma tallied_step:
  assumes "tallied st rs" "runTest t st s = (e, st1, s1)"
  shows "tallied st1 (rs @ [e])"
  using runTest_cases[OF assms(2)] assms(1)
  by (auto simp: tallied_def withStatus_snoc)

lemma yield_sel [simp]:
  "messages (yield m p) = messages p @ [m]" "counts (yield m p) = counts p"
  "outcomes (yield m p) = outcomes p" "world (yield m p) = world p"
  "abandoned (yield m p) = abandoned p"
  by (simp_all add: yield_def)

lemma forTests_tallied:
  "tallied (counts p) (outcomes p) \<Longrightarrow>
   tallied (counts (forTests ff due tests p)) (outcomes (forTests ff due tests p))"
proof (induction tests arbitrary: p)
  case Nil
  then show ?case by simp
next
  case (Cons t tests)
  obtain e st1 s1 where r: "runTest t (counts p) (world p) = (e, st1, s1)"
    by (cases "runTest t (counts p) (world p)") auto
  have t1: "tallied st1 (outcomes p @ [e])" using tallied_step[OF Cons.prems r] .
  show ?case using Cons.prems t1 Cons.IH r
    by (simp add: Let_def)
qed

lemma forTests_filtered:
  "filtered (counts (forTests ff due tests p)) = filtered (counts p)"
proof (induction tests arbitrary: p)
  case Nil
  then show ?case by simp
next
  case (Cons t tests)
  obtain e st1 s1 where r: "runTest t (counts p) (world p) = (e, st1, s1)"
    by (cases "runTest t (counts p) (world p)") auto
  show ?case using runTest_cases[OF r] Cons.IH r
    by (simp add: Let_def)
qed

text \<open>The tests that were started are the first \<open>k\<close> of the list, for some \<open>k\<close>.\<close>

lemma forTests_prefix:
  "\<exists>k \<le> length tests.
     testStarts (messages (forTests ff due tests p)) = testStarts (messages p) @ take k tests
   \<and> map TestEnd.name (outcomes (forTests ff due tests p)) =
       map TestEnd.name (outcomes p) @ map TestDefinition.name (take k tests)
   \<and> (\<not> ff \<and> due = None \<longrightarrow> k = length tests)"
proof (induction tests arbitrary: p)
  case Nil
  then show ?case by simp
next
  case (Cons t tests)
  obtain e st1 s1 where r: "runTest t (counts p) (world p) = (e, st1, s1)"
    by (cases "runTest t (counts p) (world p)") auto
  let ?p3 = "yield (EvTestEnd e) ((yield (EvTestStart t) p)\<lparr>counts := st1,
       outcomes := outcomes (yield (EvTestStart t) p) @ [e], world := s1\<rparr>)"
  from Cons.IH[of ?p3] obtain k where k: "k \<le> length tests"
    "testStarts (messages (forTests ff due tests ?p3)) = testStarts (messages ?p3) @ take k tests"
    "map TestEnd.name (outcomes (forTests ff due tests ?p3)) =
       map TestEnd.name (outcomes ?p3) @ map TestDefinition.name (take k tests)"
    "\<not> ff \<and> due = None \<longrightarrow> k = length tests" by blast
  have n: "TestEnd.name e = TestDefinition.name t" using runTest_cases[OF r] by simp
  consider (a) "timedOut due (world p)" | (b) "\<not> timedOut due (world p)" "timedOut due s1"
    | (c) "\<not> timedOut due (world p)" "\<not> timedOut due s1" "ff \<and> hasError e"
    | (d) "\<not> timedOut due (world p)" "\<not> timedOut due s1" "\<not> (ff \<and> hasError e)" by blast
  then show ?case
  proof cases
    case a
    then show ?thesis
      by (intro exI[of _ 0]) (auto simp: timedOut_def split: option.splits)
  next
    case b
    then show ?thesis using r n
      by (intro exI[of _ 1]) (auto simp: Let_def timedOut_def split: option.splits)
  next
    case c
    then show ?thesis using r n by (intro exI[of _ 1]) (auto simp: Let_def)
  next
    case d
    then show ?thesis using r n k by (intro exI[of _ "Suc k"]) (auto simp: Let_def)
  qed
qed

lemma forTests_not_abandoned: "abandoned (forTests ff None tests p) = abandoned p"
proof (induction tests arbitrary: p)
  case Nil
  then show ?case by simp
next
  case (Cons t tests)
  obtain e st1 s1 where r: "runTest t (counts p) (world p) = (e, st1, s1)"
    by (cases "runTest t (counts p) (world p)") auto
  show ?case using Cons.IH r by (simp add: Let_def timedOut_def)
qed

lemma forTests_testEnds:
  "testEnds (messages p) = outcomes p \<Longrightarrow>
   testEnds (messages (forTests ff None tests p)) = outcomes (forTests ff None tests p)"
proof (induction tests arbitrary: p)
  case Nil
  then show ?case by simp
next
  case (Cons t tests)
  obtain e st1 s1 where r: "runTest t (counts p) (world p) = (e, st1, s1)"
    by (cases "runTest t (counts p) (world p)") auto
  show ?case using Cons.prems Cons.IH r by (simp add: Let_def timedOut_def)
qed

lemma forTests_halts:
  "ff \<Longrightarrow> \<exists>new. messages (forTests ff due tests p) = messages p @ new \<and> haltsAtError new"
proof (induction tests arbitrary: p)
  case Nil
  then show ?case by simp
next
  case (Cons t tests)
  obtain e st1 s1 where r: "runTest t (counts p) (world p) = (e, st1, s1)"
    by (cases "runTest t (counts p) (world p)") auto
  let ?p3 = "yield (EvTestEnd e) ((yield (EvTestStart t) p)\<lparr>counts := st1,
       outcomes := outcomes (yield (EvTestStart t) p) @ [e], world := s1\<rparr>)"
  from Cons.IH[OF Cons.prems, of ?p3] obtain new where new:
    "messages (forTests ff due tests ?p3) = messages ?p3 @ new" "haltsAtError new" by blast
  consider (a) "timedOut due (world p)" | (b) "\<not> timedOut due (world p)" "timedOut due s1"
    | (c) "\<not> timedOut due (world p)" "\<not> timedOut due s1" "hasError e"
    | (d) "\<not> timedOut due (world p)" "\<not> timedOut due s1" "\<not> hasError e" by blast
  then show ?case
  proof cases
    case a
    then show ?thesis by (intro exI[of _ "[]"]) simp
  next
    case b
    then show ?thesis using r by (intro exI[of _ "[EvTestStart t]"]) (simp add: Let_def)
  next
    case c
    then show ?thesis using r Cons.prems
      by (intro exI[of _ "[EvTestStart t, EvTestEnd e]"]) (simp add: Let_def)
  next
    case d
    then show ?thesis using r new Cons.prems
      by (intro exI[of _ "EvTestStart t # EvTestEnd e # new"]) (simp add: Let_def)
  qed
qed

lemma halts_split:
  "haltsAtError new \<Longrightarrow> new = pre @ EvTestEnd x # post \<Longrightarrow> hasError x \<Longrightarrow> post = []"
proof (induction new arbitrary: pre)
  case Nil
  then show ?case by simp
next
  case (Cons a new)
  show ?thesis
  proof (cases pre)
    case Nil
    with Cons.prems show ?thesis by simp
  next
    case (Cons b pre')
    with Cons.prems(2) have eq: "new = pre' @ EvTestEnd x # post" by simp
    have "haltsAtError new" using Cons.prems(1) by (cases a) simp_all
    then show ?thesis using Cons.IH eq Cons.prems(3) by blast
  qed
qed

lemma halts_then_end:
  assumes "EvStart ts # new @ [EvEnd e] = pre @ EvTestEnd x # post"
    and "haltsAtError new" "hasError x"
  shows "post = [EvEnd e]"
proof -
  from assms(1) obtain pre' where pre': "pre = EvStart ts # pre'" by (cases pre) simp_all
  with assms(1) have m2: "new @ [EvEnd e] = pre' @ EvTestEnd x # post" by simp
  have "post \<noteq> []"
  proof
    assume "post = []"
    with m2 have "new @ [EvEnd e] = pre' @ [EvTestEnd x]" by simp
    then show False by simp
  qed
  then obtain post' z where pz: "post = post' @ [z]" by (cases post rule: rev_cases) simp_all
  with m2 have "new @ [EvEnd e] = (pre' @ EvTestEnd x # post') @ [z]" by simp
  then have nz: "new = pre' @ EvTestEnd x # post'" "z = EvEnd e" by simp_all
  then have "post' = []" using halts_split[OF assms(2) _ assms(3)] by blast
  then show ?thesis using pz nz(2) by simp
qed

text \<open>A runner iterated without a suite timer always reaches its end message.\<close>

lemma iterate_None:
  "iterate r None s =
     (let p = forTests (failFast' r) None (testsToRun r)
                \<lparr>abandoned = False, counts = stats' r, outcomes = [],
                 messages = [EvStart (testsToRun r)], world = s\<rparr>;
          e = stats.extend (counts p)
                (SuiteEnd.fields (usedOnly' r) (now (world p) - now s) (outcomes p) None)
      in (messages p @ [EvEnd e], Some e, world p))"
  by (simp add: iterate_def Let_def timedOut_def forTests_not_abandoned)

lemma iterate_None_end:
  assumes "iterate r None s = (msgs, endMsg, s1)"
  shows "\<exists>e. msgs = messages (forTests (failFast' r) None (testsToRun r)
                \<lparr>abandoned = False, counts = stats' r, outcomes = [],
                 messages = [EvStart (testsToRun r)], world = s\<rparr>) @ [EvEnd e]
     \<and> endMsg = Some e
     \<and> stats.truncate e = counts (forTests (failFast' r) None (testsToRun r)
                \<lparr>abandoned = False, counts = stats' r, outcomes = [],
                 messages = [EvStart (testsToRun r)], world = s\<rparr>)
     \<and> results e = outcomes (forTests (failFast' r) None (testsToRun r)
                \<lparr>abandoned = False, counts = stats' r, outcomes = [],
                 messages = [EvStart (testsToRun r)], world = s\<rparr>)
     \<and> usedOnly e = usedOnly' r"
  using assms unfolding iterate_None Let_def
  by (auto simp: stats.defs SuiteEnd.defs)

lemma truncate_sel:
  "stats.truncate e = c \<Longrightarrow>
   passed e = passed c \<and> failed e = failed c \<and> ignored e = ignored c \<and> filtered e = filtered c"
  by (auto simp: stats.defs)

lemma forTests_testEnds_reached:
  "\<not> abandoned (forTests ff due tests p) \<Longrightarrow> testEnds (messages p) = outcomes p \<Longrightarrow>
   testEnds (messages (forTests ff due tests p)) = outcomes (forTests ff due tests p)"
proof (induction tests arbitrary: p)
  case Nil
  then show ?case by simp
next
  case (Cons t tests)
  obtain e st1 s1 where r: "runTest t (counts p) (world p) = (e, st1, s1)"
    by (cases "runTest t (counts p) (world p)") auto
  consider (a) "timedOut due (world p)" | (b) "\<not> timedOut due (world p)" "timedOut due s1"
    | (c) "\<not> timedOut due (world p)" "\<not> timedOut due s1" "ff \<and> hasError e"
    | (d) "\<not> timedOut due (world p)" "\<not> timedOut due s1" "\<not> (ff \<and> hasError e)" by blast
  then show ?case
  proof cases
    case a
    then show ?thesis using Cons.prems(1) by simp
  next
    case b
    then show ?thesis using Cons.prems(1) r by (simp add: Let_def)
  next
    case c
    then show ?thesis using Cons.prems(2) r by (simp add: Let_def)
  next
    case d
    then show ?thesis using Cons.prems Cons.IH r by (auto simp: Let_def)
  qed
qed

lemma forTests_all:
  "\<not> abandoned (forTests ff due tests p) \<Longrightarrow> \<not> ff \<Longrightarrow>
   testStarts (messages (forTests ff due tests p)) = testStarts (messages p) @ tests"
proof (induction tests arbitrary: p)
  case Nil
  then show ?case by simp
next
  case (Cons t tests)
  obtain e st1 s1 where r: "runTest t (counts p) (world p) = (e, st1, s1)"
    by (cases "runTest t (counts p) (world p)") auto
  consider (a) "timedOut due (world p)" | (b) "\<not> timedOut due (world p)" "timedOut due s1"
    | (d) "\<not> timedOut due (world p)" "\<not> timedOut due s1" by blast
  then show ?case
  proof cases
    case a
    then show ?thesis using Cons.prems(1) by simp
  next
    case b
    then show ?thesis using Cons.prems(1) r by (simp add: Let_def)
  next
    case d
    then show ?thesis using Cons.prems Cons.IH r by (auto simp: Let_def)
  qed
qed

text \<open>How an iteration ends: abandoned at some message, or with the end message.\<close>

lemma iterate_cases:
  assumes "iterate r due s = (msgs, endMsg, s1)"
  shows "(endMsg = None \<and> due \<noteq> None \<and>
           (msgs = [] \<or> msgs = messages (forTests (failFast' r) due (testsToRun r)
                \<lparr>abandoned = False, counts = stats' r, outcomes = [],
                 messages = [EvStart (testsToRun r)], world = s\<rparr>)))
     \<or> (\<exists>e. endMsg = Some e
          \<and> msgs = messages (forTests (failFast' r) due (testsToRun r)
                \<lparr>abandoned = False, counts = stats' r, outcomes = [],
                 messages = [EvStart (testsToRun r)], world = s\<rparr>) @ [EvEnd e]
          \<and> \<not> abandoned (forTests (failFast' r) due (testsToRun r)
                \<lparr>abandoned = False, counts = stats' r, outcomes = [],
                 messages = [EvStart (testsToRun r)], world = s\<rparr>)
          \<and> stats.truncate e = counts (forTests (failFast' r) due (testsToRun r)
                \<lparr>abandoned = False, counts = stats' r, outcomes = [],
                 messages = [EvStart (testsToRun r)], world = s\<rparr>)
          \<and> results e = outcomes (forTests (failFast' r) due (testsToRun r)
                \<lparr>abandoned = False, counts = stats' r, outcomes = [],
                 messages = [EvStart (testsToRun r)], world = s\<rparr>)
          \<and> usedOnly e = usedOnly' r)"
proof (cases due)
  case None
  obtain e where "msgs = messages (forTests (failFast' r) None (testsToRun r)
                \<lparr>abandoned = False, counts = stats' r, outcomes = [],
                 messages = [EvStart (testsToRun r)], world = s\<rparr>) @ [EvEnd e]"
     "endMsg = Some e"
     "stats.truncate e = counts (forTests (failFast' r) None (testsToRun r)
                \<lparr>abandoned = False, counts = stats' r, outcomes = [],
                 messages = [EvStart (testsToRun r)], world = s\<rparr>)"
     "results e = outcomes (forTests (failFast' r) None (testsToRun r)
                \<lparr>abandoned = False, counts = stats' r, outcomes = [],
                 messages = [EvStart (testsToRun r)], world = s\<rparr>)"
     "usedOnly e = usedOnly' r"
    using iterate_None_end[of r s msgs endMsg s1] assms None by blast
  then show ?thesis unfolding None by (intro disjI2 exI[of _ e]) (simp add: forTests_not_abandoned)
next
  case (Some d)
  then show ?thesis using assms unfolding iterate_def Let_def
    by (auto simp: stats.defs SuiteEnd.defs split: if_splits)
qed

text \<open>
  Claim C8. A runner that is iterated with no suite timer reaches its end message. In
  every iteration that reaches the end message, the counters \<open>passed\<close>, \<open>failed\<close> and
  \<open>ignored\<close> of the message add up to the number of tests that were started. The
  outcomes in \<open>results\<close> are those of the started tests, in order, one for each; each
  counter is the number of outcomes with its status. The started tests are the first tests
  of \<open>testsToRun\<close>, and all of them unless fail-fast is on.
\<close>

theorem counts_partition_iterated_tests:
  assumes "iterate (newTestRunner tests filterFn ff) due s = (msgs, endMsg, s1)"
  shows "(due = None \<longrightarrow> endMsg \<noteq> None)
     \<and> (\<forall>e. endMsg = Some e \<longrightarrow>
           passed e + failed e + ignored e = length (testStarts msgs)
         \<and> results e = testEnds msgs
         \<and> length (results e) = length (testStarts msgs)
         \<and> map TestEnd.name (results e) = map TestDefinition.name (testStarts msgs)
         \<and> passed e = withStatus Passed (results e)
         \<and> failed e = withStatus Failed (results e)
         \<and> ignored e = withStatus Ignored (results e)
         \<and> prefix (testStarts msgs) (testsToRun (newTestRunner tests filterFn ff))
         \<and> (\<not> ff \<longrightarrow> testStarts msgs = testsToRun (newTestRunner tests filterFn ff)))"
proof (intro conjI allI impI)
  assume "due = None"
  then show "endMsg \<noteq> None" using iterate_cases[OF assms] by auto
next
  fix e assume some: "endMsg = Some e"
  let ?r = "newTestRunner tests filterFn ff"
  let ?init = "\<lparr>abandoned = False, counts = stats' ?r, outcomes = [],
                 messages = [EvStart (testsToRun ?r)], world = s\<rparr>"
  let ?fin = "forTests (failFast' ?r) due (testsToRun ?r) ?init"
  have e: "msgs = messages ?fin @ [EvEnd e]" and na: "\<not> abandoned ?fin"
    and tr: "stats.truncate e = counts ?fin" and res: "results e = outcomes ?fin"
    using iterate_cases[OF assms] some by auto
  have sel: "passed e = passed (counts ?fin)" "failed e = failed (counts ?fin)"
    "ignored e = ignored (counts ?fin)" "results e = outcomes ?fin"
    using truncate_sel[OF tr] res by simp_all
  have ff: "failFast' ?r = ff" by (simp add: newTestRunner_def Let_def)
  have "tallied (counts ?init) (outcomes ?init)"
    by (simp add: tallied_def withStatus_def newTestRunner_def Let_def)
  then have tl: "tallied (counts ?fin) (outcomes ?fin)" by (rule forTests_tallied)
  have te: "testEnds (messages ?fin) = outcomes ?fin"
    by (rule forTests_testEnds_reached[OF na]) simp
  obtain k where k: "k \<le> length (testsToRun ?r)"
    "testStarts (messages ?fin) = testStarts (messages ?init) @ take k (testsToRun ?r)"
    "map TestEnd.name (outcomes ?fin) =
       map TestEnd.name (outcomes ?init) @ map TestDefinition.name (take k (testsToRun ?r))"
    using forTests_prefix[of "testsToRun ?r" "failFast' ?r" due ?init] by blast
  have ts: "testStarts msgs = take k (testsToRun ?r)" using e k(2) by simp
  have nm: "map TestEnd.name (outcomes ?fin) = map TestDefinition.name (take k (testsToRun ?r))"
    using k(3) by simp
  have len: "length (outcomes ?fin) = k"
    using arg_cong[OF nm, of length] k(1) by simp
  have lts: "length (testStarts msgs) = k" using ts k(1) by simp
  show "passed e + failed e + ignored e = length (testStarts msgs)"
    using tl len lts by (simp add: sel tallied_def)
  show "results e = testEnds msgs" using te e by (simp add: sel)
  show "length (results e) = length (testStarts msgs)" using len lts by (simp add: sel)
  show "map TestEnd.name (results e) = map TestDefinition.name (testStarts msgs)"
    using nm ts by (simp add: sel)
  show "passed e = withStatus Passed (results e)" using tl by (simp add: sel tallied_def)
  show "failed e = withStatus Failed (results e)" using tl by (simp add: sel tallied_def)
  show "ignored e = withStatus Ignored (results e)" using tl by (simp add: sel tallied_def)
  show "prefix (testStarts msgs) (testsToRun ?r)" using ts by (simp add: take_is_prefix)
  show "testStarts msgs = testsToRun ?r" if "\<not> ff"
    using forTests_all[OF na] that ff e by simp
qed

theorem counts_partition_iterated_tests_witness:
  "iterate (newTestRunner (registry abcSuite) (\<lambda>t. True) False) None abcSuite =
     (fst (iterate (newTestRunner (registry abcSuite) (\<lambda>t. True) False) None abcSuite),
      Some (emptyEndMsg\<lparr>passed := 2, failed := 1,
              results := [\<lparr>TestEnd.name = ''s > A'', duration = 0, status = Some Passed, error = None\<rparr>,
                          \<lparr>TestEnd.name = ''s > B'', duration = 0, status = Some Failed,
                             error = Some (Error ''boom'')\<rparr>,
                          \<lparr>TestEnd.name = ''s > C'', duration = 0, status = Some Passed, error = None\<rparr>]\<rparr>),
      snd (snd (iterate (newTestRunner (registry abcSuite) (\<lambda>t. True) False) None abcSuite)))
   \<and> testStarts (fst (iterate (newTestRunner (registry abcSuite) (\<lambda>t. True) False) None abcSuite))
       = registry abcSuite
   \<and> length (registry abcSuite) = 2 + 1 + 0"
proof -
  let ?it = "iterate (newTestRunner (registry abcSuite) (\<lambda>t. True) False) None abcSuite"
  let ?e = "emptyEndMsg\<lparr>passed := 2, failed := 1,
              results := [\<lparr>TestEnd.name = ''s > A'', duration = 0, status = Some Passed, error = None\<rparr>,
                          \<lparr>TestEnd.name = ''s > B'', duration = 0, status = Some Failed,
                             error = Some (Error ''boom'')\<rparr>,
                          \<lparr>TestEnd.name = ''s > C'', duration = 0, status = Some Passed, error = None\<rparr>]\<rparr>"
  have h: "?it = (fst ?it, Some ?e, snd (snd ?it))"
    by (simp add: abcSuite_def evaluation)
  from counts_partition_iterated_tests[OF h]
  have c: "passed ?e + failed ?e + ignored ?e = length (testStarts (fst ?it))"
    "testStarts (fst ?it) = testsToRun (newTestRunner (registry abcSuite) (\<lambda>t. True) False)"
    by auto
  have "testsToRun (newTestRunner (registry abcSuite) (\<lambda>t. True) False) = registry abcSuite"
    by (simp add: abcSuite_def evaluation)
  with c h show ?thesis by (simp add: emptyEndMsg_def)
qed

text \<open>
  Claim C9. With fail-fast on, no test is started after a test-end message whose outcome
  carries an error: the message is followed by the end message and nothing else, or by
  nothing at all when the suite timer has made the consumer leave. With no suite timer the
  end message is always sent. The witness is the suite with A, B and C, where B throws.
\<close>

theorem failFast_stops:
  assumes "iterate r due s = (msgs, endMsg, s1)" "failFast' r"
    and "msgs = pre @ EvTestEnd x # post" "hasError x"
  shows "testStarts post = []
     \<and> ((endMsg = None \<and> post = []) \<or> (\<exists>e. endMsg = Some e \<and> post = [EvEnd e]))
     \<and> (due = None \<longrightarrow> (\<exists>e. endMsg = Some e \<and> post = [EvEnd e]))"
proof -
  let ?init = "\<lparr>abandoned = False, counts = stats' r, outcomes = [],
                 messages = [EvStart (testsToRun r)], world = s\<rparr>"
  let ?fin = "forTests (failFast' r) due (testsToRun r) ?init"
  obtain new where new: "messages ?fin = [EvStart (testsToRun r)] @ new" "haltsAtError new"
    using forTests_halts[OF assms(2), of due "testsToRun r" ?init] by auto
  have ne: "msgs \<noteq> []" using assms(3) by simp
  consider (cut) "endMsg = None" "due \<noteq> None" "msgs = messages ?fin"
    | (ended) e where "endMsg = Some e" "msgs = messages ?fin @ [EvEnd e]"
    using iterate_cases[OF assms(1)] ne by auto
  then have main: "(endMsg = None \<and> due \<noteq> None \<and> post = []) \<or> (\<exists>e. endMsg = Some e \<and> post = [EvEnd e])"
  proof cases
    case cut
    have m: "EvStart (testsToRun r) # new = pre @ EvTestEnd x # post"
      using cut(3) new(1) assms(3) by simp
    then obtain pre' where "pre = EvStart (testsToRun r) # pre'" by (cases pre) simp_all
    with m have "new = pre' @ EvTestEnd x # post" by simp
    then have "post = []" using halts_split[OF new(2) _ assms(4)] by blast
    then show ?thesis using cut by simp
  next
    case ended
    have "EvStart (testsToRun r) # new @ [EvEnd e] = pre @ EvTestEnd x # post"
      using ended(2) new(1) assms(3) by simp
    then have "post = [EvEnd e]" using new(2) assms(4) by (rule halts_then_end)
    then show ?thesis using ended(1) by simp
  qed
  then show ?thesis by auto
qed

theorem failFast_stops_witness:
  "failFast' (newTestRunner (registry abcSuite) (\<lambda>t. True) True)
   \<and> fst (iterate (newTestRunner (registry abcSuite) (\<lambda>t. True) True) None abcSuite) =
       [EvStart (registry abcSuite),
        EvTestStart (registry abcSuite ! 0),
        EvTestEnd \<lparr>TestEnd.name = ''s > A'', duration = 0, status = Some Passed, error = None\<rparr>,
        EvTestStart (registry abcSuite ! 1)]
       @ EvTestEnd \<lparr>TestEnd.name = ''s > B'', duration = 0, status = Some Failed,
                     error = Some (Error ''boom'')\<rparr>
       # drop 5 (fst (iterate (newTestRunner (registry abcSuite) (\<lambda>t. True) True) None abcSuite))
   \<and> hasError \<lparr>TestEnd.name = ''s > B'', duration = 0, status = Some Failed,
                 error = Some (Error ''boom'')\<rparr>
   \<and> (\<exists>e. drop 5 (fst (iterate (newTestRunner (registry abcSuite) (\<lambda>t. True) True) None abcSuite))
            = [EvEnd e])"
proof -
  let ?r = "newTestRunner (registry abcSuite) (\<lambda>t. True) True"
  let ?it = "iterate ?r None abcSuite"
  let ?x = "\<lparr>TestEnd.name = ''s > B'', duration = 0, status = Some Failed,
              error = Some (Error ''boom'')\<rparr>"
  have h1: "?it = (fst ?it, fst (snd ?it), snd (snd ?it))" by simp
  have h2: "failFast' ?r" by (simp add: newTestRunner_def Let_def)
  have h3: "fst ?it =
       [EvStart (registry abcSuite),
        EvTestStart (registry abcSuite ! 0),
        EvTestEnd \<lparr>TestEnd.name = ''s > A'', duration = 0, status = Some Passed, error = None\<rparr>,
        EvTestStart (registry abcSuite ! 1)] @ EvTestEnd ?x # drop 5 (fst ?it)"
    by (simp add: abcSuite_def evaluation)
  have h4: "hasError ?x" by (simp add: hasError_def)
  from failFast_stops[OF h1 h2 h3 h4] have "\<exists>e. drop 5 (fst ?it) = [EvEnd e]" by blast
  with h2 h3 h4 show ?thesis by blast
qed

text \<open>
  Claim C7. If some registered test is marked \<open>only\<close>, the runner keeps exactly the
  marked tests that pass the filter and every test it starts is a marked one. The end
  message, which is always reached when there is no suite timer, has \<open>usedOnly\<close> set, and
  its \<open>filtered\<close> is the number of marked tests minus the number of marked tests that
  pass the filter, so the unmarked tests are not counted in it.
\<close>

theorem only_focus:
  assumes "\<exists>t \<in> set tests. TestDefinition.only t"
    and "iterate (newTestRunner tests filterFn ff) due s = (msgs, endMsg, s1)"
  shows "testsToRun (newTestRunner tests filterFn ff) = filter filterFn (filter TestDefinition.only tests)
     \<and> (\<forall>t \<in> set (testStarts msgs). TestDefinition.only t \<and> filterFn t \<and> t \<in> set tests)
     \<and> (due = None \<longrightarrow> endMsg \<noteq> None)
     \<and> (\<forall>e. endMsg = Some e \<longrightarrow> usedOnly e
           \<and> filtered e = length (filter TestDefinition.only tests)
                           - length (filter filterFn (filter TestDefinition.only tests)))"
proof -
  let ?r = "newTestRunner tests filterFn ff"
  let ?init = "\<lparr>abandoned = False, counts = stats' ?r, outcomes = [],
                 messages = [EvStart (testsToRun ?r)], world = s\<rparr>"
  let ?fin = "forTests (failFast' ?r) due (testsToRun ?r) ?init"
  have ne: "filter TestDefinition.only tests \<noteq> []"
    using assms(1) by (simp add: filter_empty_conv)
  then have r: "usedOnly' ?r" "testsToRun ?r = filter filterFn (filter TestDefinition.only tests)"
    "filtered (stats' ?r) = length (filter TestDefinition.only tests)
        - length (filter filterFn (filter TestDefinition.only tests))"
    by (simp_all add: newTestRunner_def Let_def)
  obtain k where k: "testStarts (messages ?fin) = testStarts (messages ?init) @ take k (testsToRun ?r)"
    using forTests_prefix[of "testsToRun ?r" "failFast' ?r" due ?init] by blast
  have "msgs = [] \<or> msgs = messages ?fin \<or> (\<exists>e. msgs = messages ?fin @ [EvEnd e])"
    using iterate_cases[OF assms(2)] by auto
  then have ts: "testStarts msgs = [] \<or> testStarts msgs = take k (testsToRun ?r)"
    using k by auto
  have a: "\<forall>t \<in> set (testStarts msgs). TestDefinition.only t \<and> filterFn t \<and> t \<in> set tests"
  proof
    fix t assume "t \<in> set (testStarts msgs)"
    then have "t \<in> set (testsToRun ?r)" using ts by (auto dest: in_set_takeD)
    then show "TestDefinition.only t \<and> filterFn t \<and> t \<in> set tests" using r(2) by simp
  qed
  have b: "due = None \<longrightarrow> endMsg \<noteq> None" using iterate_cases[OF assms(2)] by auto
  have c: "\<forall>e. endMsg = Some e \<longrightarrow> usedOnly e
           \<and> filtered e = length (filter TestDefinition.only tests)
                           - length (filter filterFn (filter TestDefinition.only tests))"
  proof (intro allI impI)
    fix e assume "endMsg = Some e"
    then have tr: "stats.truncate e = counts ?fin" and uo: "usedOnly e = usedOnly' ?r"
      using iterate_cases[OF assms(2)] by auto
    have "filtered e = filtered (stats' ?r)"
      using truncate_sel[OF tr] forTests_filtered[of "failFast' ?r" due "testsToRun ?r" ?init]
      by simp
    then show "usedOnly e
           \<and> filtered e = length (filter TestDefinition.only tests)
                           - length (filter filterFn (filter TestDefinition.only tests))"
      using r uo by simp
  qed
  show ?thesis using r(2) a b c by blast
qed

theorem only_focus_witness:
  "(\<exists>t \<in> set (registry focusSuite). TestDefinition.only t)
   \<and> map TestDefinition.name (registry focusSuite) = [''s > plain'', ''s > kept'', ''s > dropped'']
   \<and> map TestDefinition.name
        (testsToRun (newTestRunner (registry focusSuite)
           (createFilterFn (\<lambda>p n. False) None (Some (Str ''dropped''))) False)) = [''s > kept'']
   \<and> list_all TestDefinition.only
         (testStarts (fst (iterate (newTestRunner (registry focusSuite)
            (createFilterFn (\<lambda>p n. False) None (Some (Str ''dropped''))) False) None focusSuite)))
   \<and> (\<exists>e. fst (snd (iterate (newTestRunner (registry focusSuite)
           (createFilterFn (\<lambda>p n. False) None (Some (Str ''dropped''))) False) None focusSuite))
          = Some e \<and> usedOnly e \<and> filtered e = 1)"
proof -
  let ?f = "createFilterFn (\<lambda>p n. False) None (Some (Str ''dropped''))"
  let ?r = "newTestRunner (registry focusSuite) ?f False"
  let ?it = "iterate ?r None focusSuite"
  have h1: "\<exists>t \<in> set (registry focusSuite). TestDefinition.only t"
    by (simp add: focusSuite_def evaluation)
  have h2: "?it = (fst ?it, fst (snd ?it), snd (snd ?it))" by simp
  have names: "map TestDefinition.name (registry focusSuite) = [''s > plain'', ''s > kept'', ''s > dropped'']"
    by (simp add: focusSuite_def evaluation)
  have kept: "map TestDefinition.name (filter ?f (filter TestDefinition.only (registry focusSuite)))
      = [''s > kept'']"
    by (simp add: focusSuite_def evaluation)
  have two: "length (filter TestDefinition.only (registry focusSuite)) = 2"
    by (simp add: focusSuite_def evaluation)
  have one: "length (filter ?f (filter TestDefinition.only (registry focusSuite))) = 1"
    using arg_cong[OF kept, of length] by simp
  from only_focus[OF h1 h2]
  have c1: "testsToRun ?r = filter ?f (filter TestDefinition.only (registry focusSuite))"
    and c2: "\<forall>t \<in> set (testStarts (fst ?it)). TestDefinition.only t"
    and c3: "\<exists>e. fst (snd ?it) = Some e \<and> usedOnly e
           \<and> filtered e = length (filter TestDefinition.only (registry focusSuite))
                           - length (filter ?f (filter TestDefinition.only (registry focusSuite)))"
    by blast+
  from c3 two one have c3': "\<exists>e. fst (snd ?it) = Some e \<and> usedOnly e \<and> filtered e = 1" by simp
  from c2 have c2': "list_all TestDefinition.only (testStarts (fst ?it))"
    by (simp add: list_all_iff)
  show ?thesis using h1 names c1 kept c2' c3' by simp
qed

section \<open>Where the code departs from the description\<close>

text \<open>
  Claim C6. A skip option given as the string \<open>/beta/\<close> is searched for as a substring,
  slashes included, so a test named \<open>suite > beta\<close> is not skipped; the same string as
  a filter is handed to the regular expression engine without its slashes.
\<close>

theorem skip_slash_string_is_substring:
  "createFilterFn rx None (Some (Str ''/beta/'')) (t\<lparr>TestDefinition.name := ''suite > beta''\<rparr>) = True
   \<and> createFilterFn rx (Some (Str ''/beta/'')) None (t\<lparr>TestDefinition.name := ''suite > beta''\<rparr>)
       = rx ''beta'' ''suite > beta''"
  by (simp add: createFilterFn_def startsWith_def endsWith_def slice1_def)

text \<open>
  Claim C2. A test with a timeout of 10ms whose body settles after 20ms: the run lasts
  10ms and reports the test as failed with the timeout error, but the duration recorded
  for the test is 0, since \<open>end'\<close> is still \<open>start\<close> when the race is lost. In general
  the runner records the elapsed time for a passed test and 0 for any other.
\<close>

theorem failed_test_duration_zero:
  "(case registerAll [Test (ByDef (Some \<lparr>dur = 20, result = None\<rparr>) ''slow'' None None (Some 10))]
          (newSuite ''s'' (noOptions\<lparr>exit := Some False\<rparr>) 0) of
     Inl e \<Rightarrow> False
   | Inr s1 \<Rightarrow>
       fst (run rx noOptions s1) =
         Returned \<lparr>filtered = 0, ignored = 0, passed = 0, failed = 1, usedOnly = False,
                   duration = 10,
                   results = [\<lparr>TestEnd.name = ''s > slow'', duration = 0, status = Some Failed,
                               error = Some (TimeoutError 10)\<rparr>],
                   timeout = None\<rparr>)
   \<and> TestEnd.duration (fst (runTest t st s)) =
         (if status (fst (runTest t st s)) = Some Passed
          then now (snd (snd (runTest t st s))) - now s else 0)"
proof -
  have "TestEnd.duration (fst (runTest t st s)) =
         (if status (fst (runTest t st s)) = Some Passed
          then now (snd (snd (runTest t st s))) - now s else 0)"
    by (cases "timeoutRace t s")
       (auto simp: runTest_def Let_def split: option.splits)
  then show ?thesis by (simp add: evaluation)
qed

text \<open>
  Claim C1. A suite with one test is run with a skip option that excludes the test, and
  then run again with no option, without a reset in between. The first call settles the
  promise with a result that has one filtered test, and the flag \<open>pending\<close> is still
  set afterwards. The second call therefore executes the test and returns another result.
\<close>

theorem second_run_executes_again:
  "case registerAll [Test (ByName ''a'' (Some instant))]
          (newSuite ''s'' (noOptions\<lparr>exit := Some False\<rparr>) 0) of
     Inl e \<Rightarrow> False
   | Inr s1 \<Rightarrow>
       (case run rx (noOptions\<lparr>skip := Some (Str ''a'')\<rparr>) s1 of
          (r1, m1, s2) \<Rightarrow>
            (case run rx noOptions s2 of
               (r2, m2, s3) \<Rightarrow>
                 r1 = Returned (emptyEndMsg\<lparr>filtered := 1\<rparr>)
               \<and> promises s2 ! endPromise s2 = Some (emptyEndMsg\<lparr>filtered := 1\<rparr>)
               \<and> pending (cache s2)
               \<and> calls s2 = []
               \<and> r2 = Returned (emptyEndMsg\<lparr>passed := 1,
                         results := [\<lparr>TestEnd.name = ''s > a'', duration = 0,
                                      status = Some Passed, error = None\<rparr>]\<rparr>)
               \<and> calls s3 = [Body ''s > a'']
               \<and> r2 \<noteq> r1))"
  by (simp add: evaluation)

text \<open>
  Claim C4. A group with a \<open>beforeAll\<close> and an \<open>afterAll\<close> callback and two tests is
  run with a filter that keeps the first test only. No test is marked \<open>only\<close> and one
  test of the group runs, yet the \<open>afterAll\<close> callback is never called: the filtered
  test was counted in \<open>waiting\<close> when it was registered, and \<open>completed\<close> stops at 1.
  Run without the filter, the same suite calls both callbacks once.
\<close>

theorem afterAll_lost_when_sibling_filtered:
  "case registerAll
          [Group ''g''
             [AddHook BeforeAll \<lparr>ident = 1, effect = Returns\<rparr>,
              AddHook AfterAll \<lparr>ident = 2, effect = Returns\<rparr>,
              Test (ByName ''a'' (Some instant)),
              Test (ByName ''b'' (Some instant))]]
          (newSuite ''s'' (noOptions\<lparr>exit := Some False\<rparr>) 0) of
     Inl e \<Rightarrow> False
   | Inr s1 \<Rightarrow>
       (case run rx (noOptions\<lparr>filterOpt := Some (Str ''a'')\<rparr>) s1 of
          (r, m, s2) \<Rightarrow>
            testStarts m = [hd (registry s1)]
          \<and> calls s2 = [Hook BeforeAll 1 1, Body ''s > g > a'']
          \<and> waiting (heap s2 ! 1) = 2 \<and> completed (heap s2 ! 1) = 1)
     \<and> calls (snd (snd (run rx noOptions s1))) =
           [Hook BeforeAll 1 1, Body ''s > g > a'', Body ''s > g > b'', Hook AfterAll 1 2]"
  by (simp add: evaluation)


section \<open>The calls of the setup loop\<close>

lemma callAll_snd:
  "snd (callAll p f fns s) = s\<lparr>calls := calls s @ map (\<lambda>h. Hook p f (ident h)) (invoked fns)\<rparr>"
  by (simp add: callAll_def)

lemma beforeLoop_calls:
  "\<exists>cs. snd (beforeLoop fs s) = s\<lparr>calls := calls s @ cs\<rparr> \<and> list_all isSetupCall cs"
proof (induction fs arbitrary: s)
  case Nil
  show ?case by (intro exI[of _ "[]"]) simp
next
  case (Cons f fs)
  let ?fr = "heap s ! f"
  let ?a = "if completed ?fr = 0 then map (\<lambda>h. Hook BeforeAll f (ident h)) (invoked (beforeAll ?fr)) else []"
  let ?b = "map (\<lambda>h. Hook BeforeEach f (ident h)) (invoked (beforeEach ?fr))"
  let ?s1 = "s\<lparr>calls := calls s @ ?a\<rparr>"
  let ?s2 = "s\<lparr>calls := calls s @ ?a @ ?b\<rparr>"
  obtain cs where cs: "snd (beforeLoop fs ?s2) = ?s2\<lparr>calls := calls ?s2 @ cs\<rparr>" "list_all isSetupCall cs"
    using Cons.IH[of ?s2] by blast
  have la: "list_all isSetupCall ?a" by (auto simp: list_all_iff)
  have lb: "list_all isSetupCall ?b" by (auto simp: list_all_iff)
  have "snd (beforeLoop (f # fs) s) = ?s1 \<or> snd (beforeLoop (f # fs) s) = ?s2
      \<or> snd (beforeLoop (f # fs) s) = snd (beforeLoop fs ?s2)"
    by (auto simp: callAll_def Let_def split: option.splits)
  then consider (a) "snd (beforeLoop (f # fs) s) = ?s1" | (b) "snd (beforeLoop (f # fs) s) = ?s2"
    | (c) "snd (beforeLoop (f # fs) s) = snd (beforeLoop fs ?s2)" by blast
  then show ?case
  proof cases
    case a
    then show ?thesis using la by (intro exI[of _ ?a]) simp
  next
    case b
    then show ?thesis using la lb by (intro exI[of _ "?a @ ?b"]) simp
  next
    case c
    then show ?thesis using la lb cs by (intro exI[of _ "?a @ ?b @ cs"]) simp
  qed
qed

section \<open>The completion counters\<close>

lemma credit_credit [simp]: "credit a b (credit c d fr) = credit (a + c) (b + d) fr"
  by (simp add: credit_def)

lemma credit_0 [simp]: "credit 0 0 fr = fr"
  by (simp add: credit_def)

lemma credit_sel [simp]:
  "completed (credit a b fr) = completed fr + a"
  "completedOnly (credit a b fr) = completedOnly fr + b"
  "waiting (credit a b fr) = waiting fr" "StackItem.only (credit a b fr) = StackItem.only fr"
  "beforeAll (credit a b fr) = beforeAll fr" "beforeEach (credit a b fr) = beforeEach fr"
  "afterEach (credit a b fr) = afterEach fr" "afterAll (credit a b fr) = afterAll fr"
  by (simp_all add: credit_def)

lemma bump_credit: "bump o' fr = credit 1 (if o' then 1 else 0) fr"
  by (simp add: bump_def credit_def Let_def)

lemma evolves_refl [simp]: "evolves f s s"
proof -
  have "heap s ! f = credit 0 0 (heap s ! f)" by simp
  then show ?thesis unfolding evolves_def by blast
qed

lemma evolves_trans:
  assumes "evolves f s s1" "evolves f s1 s2"
  shows "evolves f s s2"
proof -
  obtain a b where 1: "heap s1 ! f = credit a b (heap s ! f)"
    using assms(1) unfolding evolves_def by blast
  obtain c d where 2: "heap s2 ! f = credit c d (heap s1 ! f)"
    using assms(2) unfolding evolves_def by blast
  have "heap s2 ! f = credit (c + a) (d + b) (heap s ! f)" using 1 2 by simp
  then show ?thesis using assms unfolding evolves_def by auto
qed

lemma complete_sel [simp]:
  "late (complete o' fs s) = late s" "now (complete o' fs s) = now s"
  "calls (complete o' fs s) = calls s"
  by (induction fs arbitrary: s) auto

lemma complete_length [simp]: "length (heap (complete o' fs s)) = length (heap s)"
  by (induction fs arbitrary: s) auto

lemma complete_frame:
  "f < length (heap s) \<Longrightarrow>
   heap (complete o' fs s) ! f =
     credit (count_list fs f) (if o' then count_list fs f else 0) (heap s ! f)"
proof (induction fs arbitrary: s)
  case Nil
  then show ?case by simp
next
  case (Cons g fs)
  let ?s1 = "s\<lparr>heap := (heap s)[g := bump o' (heap s ! g)]\<rparr>"
  have len: "f < length (heap ?s1)" using Cons.prems by simp
  have "heap ?s1 ! f = (if g = f then credit 1 (if o' then 1 else 0) (heap s ! f) else heap s ! f)"
    using Cons.prems by (simp add: nth_list_update bump_credit)
  then show ?case using Cons.IH[OF len] by simp
qed

lemma callAll_sel [simp]:
  "heap (snd (callAll p f fns s)) = heap s" "late (snd (callAll p f fns s)) = late s"
  "now (snd (callAll p f fns s)) = now s"
  by (simp_all add: callAll_def)

lemma beforeLoop_sel [simp]:
  "heap (snd (beforeLoop fs s)) = heap s" "late (snd (beforeLoop fs s)) = late s"
  "now (snd (beforeLoop fs s)) = now s"
  using beforeLoop_calls[of fs s] by auto

lemma afterLoop_calls:
  "\<exists>cs. snd (afterLoop fs s) = s\<lparr>calls := calls s @ cs\<rparr>"
proof (induction fs arbitrary: s)
  case Nil
  show ?case by (intro exI[of _ "[]"]) simp
next
  case (Cons f fs)
  let ?fr = "heap s ! f"
  let ?a = "map (\<lambda>h. Hook AfterEach f (ident h)) (invoked (afterEach ?fr))"
  let ?b = "if waiting ?fr = completed ?fr \<or> (0 < StackItem.only ?fr \<and> StackItem.only ?fr = completedOnly ?fr)
            then map (\<lambda>h. Hook AfterAll f (ident h)) (invoked (afterAll ?fr)) else []"
  let ?s1 = "s\<lparr>calls := calls s @ ?a\<rparr>"
  let ?s2 = "s\<lparr>calls := calls s @ ?a @ ?b\<rparr>"
  obtain cs where cs: "snd (afterLoop fs ?s2) = ?s2\<lparr>calls := calls ?s2 @ cs\<rparr>"
    using Cons.IH[of ?s2] by blast
  have "snd (afterLoop (f # fs) s) = ?s1 \<or> snd (afterLoop (f # fs) s) = ?s2
      \<or> snd (afterLoop (f # fs) s) = snd (afterLoop fs ?s2)"
    by (auto simp: callAll_def Let_def split: option.splits)
  then consider (a) "snd (afterLoop (f # fs) s) = ?s1" | (b) "snd (afterLoop (f # fs) s) = ?s2"
    | (c) "snd (afterLoop (f # fs) s) = snd (afterLoop fs ?s2)" by blast
  then show ?case
  proof cases
    case a
    then show ?thesis by (intro exI[of _ ?a]) simp
  next
    case b
    then show ?thesis by (intro exI[of _ "?a @ ?b"]) simp
  next
    case c
    then show ?thesis using cs by (intro exI[of _ "?a @ ?b @ cs"]) simp
  qed
qed

lemma afterLoop_sel [simp]:
  "heap (snd (afterLoop fs s)) = heap s" "late (snd (afterLoop fs s)) = late s"
  "now (snd (afterLoop fs s)) = now s"
  using afterLoop_calls[of fs s] by auto

lemma finish_snd:
  "snd (finish t s) = snd (afterLoop (rev (hooks t)) (complete (TestDefinition.only t) (hooks t) s))"
  by (simp add: finish_def split: prod.splits option.splits)

lemma finish_sel [simp]:
  "late (snd (finish t s)) = late s" "now (snd (finish t s)) = now s"
  "length (heap (snd (finish t s))) = length (heap s)"
  by (simp_all add: finish_snd)

lemma finish_frame:
  "f < length (heap s) \<Longrightarrow> heap (snd (finish t s)) ! f = credit (share f t) (shareOnly f t) (heap s ! f)"
  by (simp add: finish_snd complete_frame share_def shareOnly_def)

lemma resume_sel [simp]:
  "late (resume es s) = late s" "now (resume es s) = now s"
  "length (heap (resume es s)) = length (heap s)"
  by (induction es arbitrary: s) auto

lemma resume_frame:
  "f < length (heap s) \<Longrightarrow>
   heap (resume es s) ! f =
     credit (sum_list (map (\<lambda>e. share f (snd e)) es)) (sum_list (map (\<lambda>e. shareOnly f (snd e)) es)) (heap s ! f)"
proof (induction es arbitrary: s)
  case Nil
  then show ?case by simp
next
  case (Cons e es)
  have len: "f < length (heap (snd (finish (snd e) s)))" using Cons.prems by simp
  show ?case using Cons.IH[OF len] finish_frame[OF Cons.prems, of "snd e"]
    by (simp add: add.commute)
qed


lemma advance_length [simp]: "length (heap (advance d s)) = length (heap s)"
  by (simp add: advance_def Let_def)




lemma logBody_sel [simp]:
  "heap (logBody t s) = heap s" "late (logBody t s) = late s" "now (logBody t s) = now s"
  by (simp_all add: logBody_def)


lemma evolves_cong:
  assumes "heap s1 = heap s"
  shows "evolves f s s1"
proof -
  have "heap s1 ! f = credit 0 0 (heap s ! f)" using assms by simp
  moreover have "length (heap s1) = length (heap s)" using assms by simp
  ultimately show ?thesis unfolding evolves_def by blast
qed



lemma budget_Nil: "budget f (t # rest) s \<Longrightarrow> budget f [] s"
  unfolding budget_def by simp





lemma nth_update_any: "(xs[i := x]) ! j = (if i = j \<and> j < length xs then x else xs ! j)"
  by (cases "i < length xs") (auto simp: nth_list_update list_update_beyond)

lemma addHook_sel [simp]:
  "registry (addHook p h s) = registry s" "stack (addHook p h s) = stack s"
  "late (addHook p h s) = late s" "length (heap (addHook p h s)) = length (heap s)"
  "waiting (heap (addHook p h s) ! f) = waiting (heap s ! f)"
  "StackItem.only (heap (addHook p h s) ! f) = StackItem.only (heap s ! f)"
  "completed (heap (addHook p h s) ! f) = completed (heap s ! f)"
  "completedOnly (heap (addHook p h s) ! f) = completedOnly (heap s ! f)"
  by (cases p; simp add: addHook_def Let_def nth_update_any)+




lemma push_sel [simp]:
  "registry (push n s) = registry s" "stack (push n s) = stack s @ [length (heap s)]"
  "late (push n s) = late s" "heap (push n s) = heap s @ [newContext n]"
  by (simp_all add: push_def)

lemma newContext_sel [simp]:
  "waiting (newContext n) = 0" "StackItem.only (newContext n) = 0"
  "completed (newContext n) = 0" "completedOnly (newContext n) = 0"
  by (simp_all add: newContext_def)




lemma incWaiting_length [simp]: "length (incWaiting fs h) = length h"
  by (induction fs arbitrary: h) auto

lemma incOnly_length [simp]: "length (incOnly fs h) = length h"
  by (induction fs arbitrary: h) auto



lemma test_Inr:
  assumes "test a s = Inr s1"
  shows "\<exists>d t. testDefOf a = Inr d
     \<and> registry s1 = registry s @ [t] \<and> hooks t = stack s
     \<and> ignore t = ignore d \<and> TestDefinition.only t = TestDefinition.only d
     \<and> fn t = fn d \<and> TestDefinition.timeout t = TestDefinition.timeout d
     \<and> stack s1 = stack s \<and> late s1 = late s
     \<and> heap s1 = (if TestDefinition.only d then incOnly (stack s) else (\<lambda>h. h))
                    ((if \<not> ignore d then incWaiting (stack s) else (\<lambda>h. h)) (heap s))"
proof -
  obtain d where d: "testDefOf a = Inr d"
    using assms by (cases "testDefOf a") (simp_all add: test_def)
  have "registry s1 = registry s @ [last (registry s1)] \<and> hooks (last (registry s1)) = stack s
     \<and> ignore (last (registry s1)) = ignore d \<and> TestDefinition.only (last (registry s1)) = TestDefinition.only d
     \<and> fn (last (registry s1)) = fn d \<and> TestDefinition.timeout (last (registry s1)) = TestDefinition.timeout d
     \<and> stack s1 = stack s \<and> late s1 = late s
     \<and> heap s1 = (if TestDefinition.only d then incOnly (stack s) else (\<lambda>h. h))
                    ((if \<not> ignore d then incWaiting (stack s) else (\<lambda>h. h)) (heap s))"
  proof (cases "ignore d")
    case True
    show ?thesis
    proof (cases "TestDefinition.only d")
      case True
      with \<open>ignore d\<close> assms d show ?thesis
        by (simp add: test_def Let_def wrapHooks_def) (use \<open>ignore d\<close> True in auto)
    next
      case False
      with \<open>ignore d\<close> assms d show ?thesis
        by (simp add: test_def Let_def wrapHooks_def) (use \<open>ignore d\<close> False in auto)
    qed
  next
    case False
    show ?thesis
    proof (cases "TestDefinition.only d")
      case True
      with \<open>\<not> ignore d\<close> assms d show ?thesis
        by (simp add: test_def Let_def wrapHooks_def) (use \<open>\<not> ignore d\<close> True in auto)
    next
      case f2: False
      with \<open>\<not> ignore d\<close> assms d show ?thesis
        by (simp add: test_def Let_def wrapHooks_def) (use \<open>\<not> ignore d\<close> f2 in auto)
    qed
  qed
  then show ?thesis using d by blast
qed











lemma timeoutRace_length [simp]: "length (heap (snd (timeoutRace t s))) = length (heap s)"
proof (cases "beforeLoop (hooks t) s")
  case (Pair r s1)
  have "length (heap s1) = length (heap s)" using beforeLoop_sel(1)[of "hooks t" s] Pair by simp
  then show ?thesis using Pair
    by (cases r) (simp_all add: timeoutRace_def Let_def)
qed

lemma runTest_length:
  "runTest t st s = (e, st1, s1) \<Longrightarrow> length (heap s1) = length (heap s)"
proof (cases "ignore t")
  case True
  assume "runTest t st s = (e, st1, s1)"
  with True show ?thesis by (simp add: runTest_def Let_def)
next
  case False
  assume "runTest t st s = (e, st1, s1)"
  with False have "s1 = snd (timeoutRace t s)"
    by (auto simp: runTest_def Let_def split: prod.splits option.splits)
  then show ?thesis by simp
qed

lemma forTests_length [simp]:
  "length (heap (world (forTests ff due tests p))) = length (heap (world p))"
proof (induction tests arbitrary: p)
  case Nil
  then show ?case by simp
next
  case (Cons t tests)
  obtain e st1 s1 where r: "runTest t (counts p) (world p) = (e, st1, s1)"
    by (cases "runTest t (counts p) (world p)") auto
  show ?case using Cons.IH r runTest_length[OF r] by (simp add: Let_def)
qed





section \<open>Callbacks added after a test\<close>

lemma invoked_quiet: "list_all (\<lambda>h. effect h = Returns) fns \<Longrightarrow> invoked fns = fns"
  by (induction fns) auto

lemma firstThrow_quiet: "list_all (\<lambda>h. effect h = Returns) fns \<Longrightarrow> firstThrow fns = None"
  by (induction fns) auto

lemma firstReject_quiet: "list_all (\<lambda>h. effect h = Returns) fns \<Longrightarrow> firstReject fns = None"
  by (induction fns) auto

lemma callAll_quiet:
  "list_all (\<lambda>h. effect h = Returns) fns \<Longrightarrow>
   callAll p f fns s = (None, s\<lparr>calls := calls s @ map (\<lambda>h. Hook p f (ident h)) fns\<rparr>)"
  by (simp add: callAll_def invoked_quiet firstThrow_quiet firstReject_quiet)

lemma quiet_calls [simp]: "quiet fs (s\<lparr>calls := c\<rparr>) = quiet fs s"
  by (simp add: quiet_def)

lemma beforeCalls_calls [simp]: "beforeCalls (s\<lparr>calls := c\<rparr>) f = beforeCalls s f"
  by (simp add: beforeCalls_def)

lemma afterCalls_calls [simp]: "afterCalls (s\<lparr>calls := c\<rparr>) f = afterCalls s f"
  by (simp add: afterCalls_def)

lemma quiet_Cons:
  "quiet (f # fs) s =
     (list_all (\<lambda>h. effect h = Returns) (beforeAll (heap s ! f)) \<and>
      list_all (\<lambda>h. effect h = Returns) (beforeEach (heap s ! f)) \<and>
      list_all (\<lambda>h. effect h = Returns) (afterEach (heap s ! f)) \<and>
      list_all (\<lambda>h. effect h = Returns) (afterAll (heap s ! f)) \<and> quiet fs s)"
  by (auto simp: quiet_def)

lemma beforeLoop_quiet:
  "quiet fs s \<Longrightarrow>
   beforeLoop fs s = (None, s\<lparr>calls := calls s @ concat (map (beforeCalls s) fs)\<rparr>)"
proof (induction fs arbitrary: s)
  case Nil
  then show ?case by simp
next
  case (Cons f fs)
  let ?s2 = "s\<lparr>calls := calls s @ beforeCalls s f\<rparr>"
  have q: "quiet fs ?s2" using Cons.prems by (simp add: quiet_Cons)
  have step: "beforeLoop (f # fs) s = beforeLoop fs ?s2"
    using Cons.prems by (simp add: quiet_Cons callAll_quiet beforeCalls_def Let_def)
  have m: "map (beforeCalls ?s2) fs = map (beforeCalls s) fs" by simp
  show ?case unfolding step Cons.IH[OF q] m by simp
qed

lemma afterLoop_quiet:
  "quiet fs s \<Longrightarrow>
   afterLoop fs s = (None, s\<lparr>calls := calls s @ concat (map (afterCalls s) fs)\<rparr>)"
proof (induction fs arbitrary: s)
  case Nil
  then show ?case by simp
next
  case (Cons f fs)
  let ?s2 = "s\<lparr>calls := calls s @ afterCalls s f\<rparr>"
  have q: "quiet fs ?s2" using Cons.prems by (simp add: quiet_Cons)
  have step: "afterLoop (f # fs) s = afterLoop fs ?s2"
    using Cons.prems by (simp add: quiet_Cons callAll_quiet afterCalls_def Let_def)
  have m: "map (afterCalls ?s2) fs = map (afterCalls s) fs" by simp
  show ?case unfolding step Cons.IH[OF q] m by simp
qed

lemma finish_calls: "\<exists>cs. calls (snd (finish t s)) = calls s @ cs"
proof -
  obtain cs where "snd (afterLoop (rev (hooks t)) (complete (TestDefinition.only t) (hooks t) s))
      = (complete (TestDefinition.only t) (hooks t) s)\<lparr>calls :=
           calls (complete (TestDefinition.only t) (hooks t) s) @ cs\<rparr>"
    using afterLoop_calls by blast
  then show ?thesis by (simp add: finish_snd)
qed

lemma resume_calls: "\<exists>cs. calls (resume es s) = calls s @ cs"
proof (induction es arbitrary: s)
  case Nil
  then show ?case by simp
next
  case (Cons e es)
  obtain c1 where c1: "calls (snd (finish (snd e) s)) = calls s @ c1"
    using finish_calls by blast
  obtain c2 where c2: "calls (resume es (snd (finish (snd e) s))) = calls (snd (finish (snd e) s)) @ c2"
    using Cons.IH by blast
  show ?case using c1 c2 by simp
qed

lemma advance_calls: "\<exists>cs. calls (advance d s) = calls s @ cs"
proof (cases "d = 0")
  case True
  then show ?thesis by (simp add: advance_def)
next
  case False
  let ?t = "now s + d"
  obtain cs where "calls (resume (filter (\<lambda>e. fst e \<le> ?t) (late s))
          (s\<lparr>now := ?t, late := filter (\<lambda>e. \<not> fst e \<le> ?t) (late s)\<rparr>))
      = calls (s\<lparr>now := ?t, late := filter (\<lambda>e. \<not> fst e \<le> ?t) (late s)\<rparr>) @ cs"
    using resume_calls by blast
  then show ?thesis using False by (simp add: advance_def Let_def)
qed

lemma advance_evolves:
  assumes "f < length (heap s)"
  shows "evolves f s (advance d s)"
proof (cases "d = 0")
  case True
  then show ?thesis by (simp add: advance_def)
next
  case False
  let ?t = "now s + d"
  let ?s0 = "s\<lparr>now := ?t, late := filter (\<lambda>e. \<not> fst e \<le> ?t) (late s)\<rparr>"
  have "heap (resume (filter (\<lambda>e. fst e \<le> ?t) (late s)) ?s0) ! f
      = credit (sum_list (map (\<lambda>e. share f (snd e)) (filter (\<lambda>e. fst e \<le> ?t) (late s))))
               (sum_list (map (\<lambda>e. shareOnly f (snd e)) (filter (\<lambda>e. fst e \<le> ?t) (late s))))
               (heap s ! f)"
    using resume_frame[of f ?s0] assms by simp
  then show ?thesis using False unfolding evolves_def by (auto simp: advance_def Let_def)
qed

lemma evolves_hooks:
  assumes "evolves f s s1"
  shows "beforeAll (heap s1 ! f) = beforeAll (heap s ! f)"
    "beforeEach (heap s1 ! f) = beforeEach (heap s ! f)"
    "afterEach (heap s1 ! f) = afterEach (heap s ! f)"
    "afterAll (heap s1 ! f) = afterAll (heap s ! f)"
  using assms unfolding evolves_def by auto

lemma quiet_evolves:
  assumes "quiet fs s" "\<forall>f \<in> set fs. evolves f s s1"
  shows "quiet fs s1"
proof -
  have "list_all (\<lambda>h. effect h = Returns)
          (beforeAll (heap s1 ! f) @ beforeEach (heap s1 ! f) @
           afterEach (heap s1 ! f) @ afterAll (heap s1 ! f))"
    if "f \<in> set fs" for f
  proof -
    have e: "evolves f s s1" using assms(2) that by blast
    have "list_all (\<lambda>h. effect h = Returns)
          (beforeAll (heap s ! f) @ beforeEach (heap s ! f) @
           afterEach (heap s ! f) @ afterAll (heap s ! f))"
      using assms(1) that unfolding quiet_def list_all_iff by blast
    then show ?thesis by (simp only: evolves_hooks[OF e])
  qed
  then show ?thesis unfolding quiet_def by (simp add: list_all_iff)
qed

lemma complete_evolves:
  assumes "f < length (heap s)"
  shows "evolves f s (complete o' fs s)"
  unfolding evolves_def using complete_frame[OF assms] by auto

text \<open>What a wrapped function does when none of the callbacks of its frames throws.\<close>

lemma wrappedFn_quiet:
  assumes q: "quiet (hooks t) s" and v: "\<forall>f \<in> set (hooks t). f < length (heap s)"
  shows "\<exists>cs s1. (\<forall>f \<in> set (hooks t). evolves f s s1)
     \<and> heap (snd (wrappedFn t s)) = heap s1
     \<and> calls (snd (wrappedFn t s)) =
         calls s @ concat (map (beforeCalls s) (hooks t)) @ [Body (TestDefinition.name t)]
           @ cs @ concat (map (afterCalls s1) (rev (hooks t)))"
proof -
  let ?s1 = "s\<lparr>calls := calls s @ concat (map (beforeCalls s) (hooks t))\<rparr>"
  let ?s2 = "logBody t ?s1"
  let ?s3 = "advance (dur (fn t)) ?s2"
  let ?s4 = "complete (TestDefinition.only t) (hooks t) ?s3"
  have w: "wrappedFn t s = finish t ?s3"
    by (simp add: wrappedFn_def beforeLoop_quiet[OF q])
  obtain cs where cs: "calls ?s3 = calls ?s2 @ cs" using advance_calls by blast
  have ev: "\<forall>f \<in> set (hooks t). evolves f s ?s4"
  proof
    fix f assume "f \<in> set (hooks t)"
    then have f: "f < length (heap s)" using v by blast
    have e2: "evolves f s ?s2" by (rule evolves_cong) simp
    have f2: "f < length (heap ?s2)" using f by simp
    have e3: "evolves f ?s2 ?s3" by (rule advance_evolves[OF f2])
    have f3: "f < length (heap ?s3)" using f by simp
    have e4: "evolves f ?s3 ?s4" by (rule complete_evolves[OF f3])
    show "evolves f s ?s4" using evolves_trans[OF evolves_trans[OF e2 e3] e4] .
  qed
  have q4: "quiet (rev (hooks t)) ?s4"
    using quiet_evolves[OF q ev] by (simp add: quiet_def)
  have "snd (finish t ?s3) = snd (afterLoop (rev (hooks t)) ?s4)" by (rule finish_snd)
  then have fin: "snd (wrappedFn t s) =
      ?s4\<lparr>calls := calls ?s4 @ concat (map (afterCalls ?s4) (rev (hooks t)))\<rparr>"
    unfolding w afterLoop_quiet[OF q4] by simp
  have hp: "heap (snd (wrappedFn t s)) = heap ?s4" unfolding fin by simp
  have "calls (snd (wrappedFn t s)) = calls ?s4 @ concat (map (afterCalls ?s4) (rev (hooks t)))"
    unfolding fin by simp
  then have "calls (snd (wrappedFn t s)) =
      calls s @ concat (map (beforeCalls s) (hooks t)) @ [Body (TestDefinition.name t)]
        @ cs @ concat (map (afterCalls ?s4) (rev (hooks t)))"
    using cs by (simp add: logBody_def)
  then show ?thesis using ev hp by blast
qed

lemma top_addHook [simp]: "top (addHook p h s) = top s"
  by (simp add: top_def)

lemma addHook_in:
  "top s < length (heap s) \<Longrightarrow> h \<in> set (phaseHooks p (heap (addHook p h s) ! top s))"
  by (cases p) (simp_all add: addHook_def Let_def phaseHooks_def)

lemma addHook_keeps:
  "x \<in> set (phaseHooks q (heap s ! f)) \<Longrightarrow> x \<in> set (phaseHooks q (heap (addHook p h s) ! f))"
  by (cases p; cases q) (auto simp: addHook_def Let_def phaseHooks_def nth_update_any)

lemma beforeCalls_each:
  "h \<in> set (beforeEach (heap s ! f)) \<Longrightarrow> Hook BeforeEach f (ident h) \<in> set (beforeCalls s f)"
  by (simp add: beforeCalls_def)

lemma beforeCalls_all:
  "h \<in> set (beforeAll (heap s ! f)) \<Longrightarrow> completed (heap s ! f) = 0 \<Longrightarrow>
   Hook BeforeAll f (ident h) \<in> set (beforeCalls s f)"
  by (simp add: beforeCalls_def)

lemma afterCalls_each:
  "h \<in> set (afterEach (heap s ! f)) \<Longrightarrow> Hook AfterEach f (ident h) \<in> set (afterCalls s f)"
  by (simp add: afterCalls_def)

lemma afterCalls_all:
  "h \<in> set (afterAll (heap s ! f)) \<Longrightarrow>
   waiting (heap s ! f) = completed (heap s ! f)
     \<or> (0 < StackItem.only (heap s ! f) \<and> StackItem.only (heap s ! f) = completedOnly (heap s ! f)) \<Longrightarrow>
   Hook AfterAll f (ident h) \<in> set (afterCalls s f)"
  by (auto simp: afterCalls_def)

lemma test_shape:
  assumes "test a s = Inr s1"
  shows "\<exists>u. registry s1 = registry s @ [u] \<and> hooks u = stack s \<and> stack s1 = stack s
     \<and> length (heap s1) = length (heap s)"
proof -
  obtain d t where d: "testDefOf a = Inr d"
    and reg: "registry s1 = registry s @ [t]" and hk: "hooks t = stack s"
    and ig: "ignore t = ignore d" and on: "TestDefinition.only t = TestDefinition.only d"
    and stk: "stack s1 = stack s" and lt: "late s1 = late s"
    and hp: "heap s1 = (if TestDefinition.only d then incOnly (stack s) else (\<lambda>h. h))
                    ((if \<not> ignore d then incWaiting (stack s) else (\<lambda>h. h)) (heap s))"
    using test_Inr[OF assms] by blast
  have "length (heap s1) = length (heap s)" unfolding hp by simp
  then show ?thesis using reg hk stk by blast
qed

text \<open>
  Claim C10. A test is registered in a scope, and afterwards one callback of each kind is
  added to the same scope. The registered test holds the frame references of the stack, and
  when its wrapped function is called (with no callback of its frames throwing) the
  \<open>beforeEach\<close> callback added later is called before the body and the \<open>afterEach\<close>
  callback after it; so is the \<open>beforeAll\<close> callback if nothing has completed in the
  scope yet, and the \<open>afterAll\<close> callback if the counters of the scope meet the condition
  of the teardown loop.
\<close>

theorem hooks_added_later_still_run:
  assumes v: "\<forall>f \<in> set (stack s). f < length (heap s)" and ne: "stack s \<noteq> []"
    and t: "test a s = Inr s1"
    and s2: "s2 = addHook AfterAll h4 (addHook AfterEach h3
                    (addHook BeforeEach h2 (addHook BeforeAll h1 s1)))"
    and q: "quiet (hooks (last (registry s2))) s2"
    and s3: "s3 = snd (wrappedFn (last (registry s2)) s2)"
  shows "hooks (last (registry s2)) = stack s
     \<and> (\<exists>pre post.
          calls s3 = calls s2 @ pre @ [Body (TestDefinition.name (last (registry s2)))] @ post
        \<and> Hook BeforeEach (top s) (ident h2) \<in> set pre
        \<and> Hook AfterEach (top s) (ident h3) \<in> set post
        \<and> (completed (heap s2 ! top s) = 0 \<longrightarrow> Hook BeforeAll (top s) (ident h1) \<in> set pre)
        \<and> (waiting (heap s3 ! top s) = completed (heap s3 ! top s)
             \<or> (0 < StackItem.only (heap s3 ! top s)
                 \<and> StackItem.only (heap s3 ! top s) = completedOnly (heap s3 ! top s))
            \<longrightarrow> Hook AfterAll (top s) (ident h4) \<in> set post))"
proof -
  obtain u where reg: "registry s1 = registry s @ [u]" and hk: "hooks u = stack s"
    and stk: "stack s1 = stack s" and len1: "length (heap s1) = length (heap s)"
    using test_shape[OF t] by blast
  let ?f = "top s"
  let ?sa = "addHook BeforeAll h1 s1"
  let ?sb = "addHook BeforeEach h2 ?sa"
  let ?sc = "addHook AfterEach h3 ?sb"
  have fin: "?f \<in> set (stack s)" using ne by (simp add: top_def)
  then have fl: "?f < length (heap s)" using v by blast
  have top1: "top s1 = ?f" by (simp add: top_def stk)
  have last: "last (registry s2) = u" unfolding s2 by (simp add: reg)
  have len2: "length (heap s2) = length (heap s)" unfolding s2 by (simp add: len1)
  have m1: "h1 \<in> set (beforeAll (heap s2 ! ?f))"
  proof -
    have "h1 \<in> set (phaseHooks BeforeAll (heap ?sa ! ?f))"
      using addHook_in[of s1 h1 BeforeAll] fl by (simp add: top1 len1)
    then have "h1 \<in> set (phaseHooks BeforeAll (heap s2 ! ?f))"
      unfolding s2 by (rule addHook_keeps[OF addHook_keeps[OF addHook_keeps]])
    then show ?thesis by (simp add: phaseHooks_def)
  qed
  have m2: "h2 \<in> set (beforeEach (heap s2 ! ?f))"
  proof -
    have "h2 \<in> set (phaseHooks BeforeEach (heap ?sb ! ?f))"
      using addHook_in[of ?sa h2 BeforeEach] fl by (simp add: top1 len1)
    then have "h2 \<in> set (phaseHooks BeforeEach (heap s2 ! ?f))"
      unfolding s2 by (rule addHook_keeps[OF addHook_keeps])
    then show ?thesis by (simp add: phaseHooks_def)
  qed
  have m3: "h3 \<in> set (afterEach (heap s2 ! ?f))"
  proof -
    have "h3 \<in> set (phaseHooks AfterEach (heap ?sc ! ?f))"
      using addHook_in[of ?sb h3 AfterEach] fl by (simp add: top1 len1)
    then have "h3 \<in> set (phaseHooks AfterEach (heap s2 ! ?f))"
      unfolding s2 by (rule addHook_keeps)
    then show ?thesis by (simp add: phaseHooks_def)
  qed
  have m4: "h4 \<in> set (afterAll (heap s2 ! ?f))"
  proof -
    have "h4 \<in> set (phaseHooks AfterAll (heap s2 ! ?f))"
      unfolding s2 using addHook_in[of ?sc h4 AfterAll] fl by (simp add: top1 len1)
    then show ?thesis by (simp add: phaseHooks_def)
  qed
  have qu: "quiet (hooks u) s2" using q last by simp
  have vu: "\<forall>f \<in> set (hooks u). f < length (heap s2)" using v by (simp add: hk len2)
  obtain cs sx where ev: "\<forall>f \<in> set (hooks u). evolves f s2 sx"
    and hx: "heap (snd (wrappedFn u s2)) = heap sx"
    and cl: "calls (snd (wrappedFn u s2)) =
         calls s2 @ concat (map (beforeCalls s2) (hooks u)) @ [Body (TestDefinition.name u)]
           @ cs @ concat (map (afterCalls sx) (rev (hooks u)))"
    using wrappedFn_quiet[OF qu vu] by blast
  let ?pre = "concat (map (beforeCalls s2) (hooks u))"
  let ?post = "cs @ concat (map (afterCalls sx) (rev (hooks u)))"
  have fu: "?f \<in> set (hooks u)" using fin by (simp add: hk)
  have evf: "evolves ?f s2 sx" using ev fu by blast
  have h3x: "heap s3 = heap sx" unfolding s3 last by (rule hx)
  have c0: "calls s3 = calls s2 @ ?pre @ [Body (TestDefinition.name (last (registry s2)))] @ ?post"
    unfolding s3 last using cl by simp
  have c1: "Hook BeforeEach ?f (ident h2) \<in> set ?pre"
    using fu beforeCalls_each[OF m2] by auto
  have c2: "Hook AfterEach ?f (ident h3) \<in> set ?post"
  proof -
    have "h3 \<in> set (afterEach (heap sx ! ?f))" using m3 by (simp add: evolves_hooks[OF evf])
    then show ?thesis using fu afterCalls_each by auto
  qed
  have c3: "completed (heap s2 ! ?f) = 0 \<longrightarrow> Hook BeforeAll ?f (ident h1) \<in> set ?pre"
    using fu beforeCalls_all[OF m1] by auto
  have c4: "waiting (heap s3 ! ?f) = completed (heap s3 ! ?f)
             \<or> (0 < StackItem.only (heap s3 ! ?f)
                 \<and> StackItem.only (heap s3 ! ?f) = completedOnly (heap s3 ! ?f))
            \<longrightarrow> Hook AfterAll ?f (ident h4) \<in> set ?post"
  proof
    assume a: "waiting (heap s3 ! ?f) = completed (heap s3 ! ?f)
             \<or> (0 < StackItem.only (heap s3 ! ?f)
                 \<and> StackItem.only (heap s3 ! ?f) = completedOnly (heap s3 ! ?f))"
    have "h4 \<in> set (afterAll (heap sx ! ?f))" using m4 by (simp add: evolves_hooks[OF evf])
    then have "Hook AfterAll ?f (ident h4) \<in> set (afterCalls sx ?f)"
      using a unfolding h3x by (rule afterCalls_all)
    then show "Hook AfterAll ?f (ident h4) \<in> set ?post" using fu by auto
  qed
  have "hooks (last (registry s2)) = stack s" using last hk by simp
  moreover have "\<exists>pre post.
          calls s3 = calls s2 @ pre @ [Body (TestDefinition.name (last (registry s2)))] @ post
        \<and> Hook BeforeEach ?f (ident h2) \<in> set pre
        \<and> Hook AfterEach ?f (ident h3) \<in> set post
        \<and> (completed (heap s2 ! ?f) = 0 \<longrightarrow> Hook BeforeAll ?f (ident h1) \<in> set pre)
        \<and> (waiting (heap s3 ! ?f) = completed (heap s3 ! ?f)
             \<or> (0 < StackItem.only (heap s3 ! ?f)
                 \<and> StackItem.only (heap s3 ! ?f) = completedOnly (heap s3 ! ?f))
            \<longrightarrow> Hook AfterAll ?f (ident h4) \<in> set post)"
    by (intro exI[of _ ?pre] exI[of _ ?post] conjI c0 c1 c2 c3 c4)
  ultimately show ?thesis by (rule conjI)
qed


theorem hooks_added_later_still_run_witness:
  "list_all (\<lambda>f. f < length (heap openScope)) (stack openScope)
   \<and> stack openScope \<noteq> []
   \<and> test (ByName ''one'' (Some instant)) openScope = Inr scopeWithTest
   \<and> quiet (hooks (last (registry scopeWithHooks))) scopeWithHooks
   \<and> hooks (last (registry scopeWithHooks)) = [0, 1]
   \<and> top openScope = 1
   \<and> calls scopeWithHooks = []
   \<and> (\<exists>pre post.
          calls (snd (wrappedFn (last (registry scopeWithHooks)) scopeWithHooks)) =
            calls scopeWithHooks @ pre @ [Body ''s > g > one''] @ post
        \<and> Hook BeforeAll 1 1 \<in> set pre \<and> Hook BeforeEach 1 2 \<in> set pre
        \<and> Hook AfterEach 1 3 \<in> set post \<and> Hook AfterAll 1 4 \<in> set post)"
proof -
  let ?s3 = "snd (wrappedFn (last (registry scopeWithHooks)) scopeWithHooks)"
  have s1: "scopeWithTest = (newSuite ''s'' noOptions 0)
      \<lparr>stack := [0, 1],
       registry := [\<lparr>fn = instant, TestDefinition.name = ''s > g > one'', ignore = False,
                     TestDefinition.only = False, TestDefinition.timeout = 2000, hooks = [0, 1]\<rparr>],
       heap := [(newContext ''s'')\<lparr>waiting := 1\<rparr>, (newContext ''g'')\<lparr>waiting := 1\<rparr>]\<rparr>"
    by (simp add: scopeWithTest_def openScope_def evaluation)
  have h1: "\<forall>f \<in> set (stack openScope). f < length (heap openScope)"
    by (simp add: openScope_def evaluation)
  have h2: "stack openScope \<noteq> []" by (simp add: openScope_def evaluation)
  have h3: "test (ByName ''one'' (Some instant)) openScope = Inr scopeWithTest"
    unfolding s1 by (simp add: openScope_def evaluation)
  have h4: "scopeWithHooks = addHook AfterAll \<lparr>ident = 4, effect = Returns\<rparr>
       (addHook AfterEach \<lparr>ident = 3, effect = Returns\<rparr>
          (addHook BeforeEach \<lparr>ident = 2, effect = Returns\<rparr>
             (addHook BeforeAll \<lparr>ident = 1, effect = Returns\<rparr> scopeWithTest)))"
    by (rule scopeWithHooks_def)
  have s2: "scopeWithHooks = scopeWithTest\<lparr>heap := [(newContext ''s'')\<lparr>waiting := 1\<rparr>,
         (newContext ''g'')\<lparr>waiting := 1,
            beforeAll := [\<lparr>ident = 1, effect = Returns\<rparr>],
            beforeEach := [\<lparr>ident = 2, effect = Returns\<rparr>],
            afterEach := [\<lparr>ident = 3, effect = Returns\<rparr>],
            afterAll := [\<lparr>ident = 4, effect = Returns\<rparr>]\<rparr>]\<rparr>"
    unfolding scopeWithHooks_def s1 by (simp add: evaluation)
  have lr: "last (registry scopeWithHooks) = \<lparr>fn = instant, TestDefinition.name = ''s > g > one'', ignore = False,
                     TestDefinition.only = False, TestDefinition.timeout = 2000, hooks = [0, 1]\<rparr>"
    unfolding s2 s1 by simp
  have h5: "quiet (hooks (last (registry scopeWithHooks))) scopeWithHooks"
    unfolding lr unfolding s2 s1 by (simp add: quiet_def newContext_def newSuite_def)
  have tp: "top openScope = 1" by (simp add: openScope_def evaluation)
  have z: "completed (heap scopeWithHooks ! top openScope) = 0" unfolding tp s2 s1
    by (simp add: newContext_def newSuite_def)
  have w: "waiting (heap ?s3 ! top openScope) = completed (heap ?s3 ! top openScope)"
    unfolding lr tp unfolding s2 s1 by (simp add: evaluation)
  have cl: "calls scopeWithHooks = []" unfolding s2 s1 by (simp add: newSuite_def)
  from hooks_added_later_still_run[OF h1 h2 h3 h4 h5 refl] z w
  have "hooks (last (registry scopeWithHooks)) = stack openScope"
    and "\<exists>pre post.
          calls ?s3 = calls scopeWithHooks @ pre @ [Body (TestDefinition.name (last (registry scopeWithHooks)))] @ post
        \<and> Hook BeforeEach (top openScope) (ident \<lparr>ident = 2, effect = Returns\<rparr>) \<in> set pre
        \<and> Hook AfterEach (top openScope) (ident \<lparr>ident = 3, effect = Returns\<rparr>) \<in> set post
        \<and> Hook BeforeAll (top openScope) (ident \<lparr>ident = 1, effect = Returns\<rparr>) \<in> set pre
        \<and> Hook AfterAll (top openScope) (ident \<lparr>ident = 4, effect = Returns\<rparr>) \<in> set post"
    by blast+
  then have c: "hooks (last (registry scopeWithHooks)) = [0, 1]"
    "\<exists>pre post.
          calls ?s3 = calls scopeWithHooks @ pre @ [Body ''s > g > one''] @ post
        \<and> Hook BeforeAll 1 1 \<in> set pre \<and> Hook BeforeEach 1 2 \<in> set pre
        \<and> Hook AfterEach 1 3 \<in> set post \<and> Hook AfterAll 1 4 \<in> set post"
    unfolding tp by (simp add: openScope_def evaluation, simp add: lr, blast)
  have h1': "list_all (\<lambda>f. f < length (heap openScope)) (stack openScope)"
    using h1 by (simp add: list_all_iff)
  show ?thesis using h1' h2 h3 h5 tp cl c by blast
qed

section \<open>Errors in the setup phase\<close>

lemma allReturn_quiet:
  "allReturn fns \<Longrightarrow> firstThrow fns = None \<and> firstReject fns = None \<and> invoked fns = fns"
  by (induction fns) (auto simp: allReturn_def)

lemma not_allReturn_rejects:
  "\<not> allReturn fns \<Longrightarrow> firstThrow fns = None \<Longrightarrow> firstReject fns \<noteq> None"
  by (induction fns) (auto simp: allReturn_def split: settles.splits)

lemma not_allReturn_fails:
  assumes "\<not> allReturn fns"
  shows "\<exists>e. firstThrow fns = Some e \<or> firstThrow fns = None \<and> firstReject fns = Some e"
proof (cases "firstThrow fns")
  case None
  then show ?thesis using not_allReturn_rejects[OF assms] by auto
next
  case (Some e)
  then show ?thesis by blast
qed

lemma invoked_calledUntilThrow: "invoked fns = calledUntilThrow fns"
  by (induction fns) (auto simp: calledUntilThrow_def throwsSync_def split: settles.splits)

lemma failsInAll_calls [simp]: "failsInAll (s\<lparr>calls := c\<rparr>) f = failsInAll s f"
  by (simp add: failsInAll_def)

lemma ranSetup_calls [simp]: "ranSetup (s\<lparr>calls := c\<rparr>) = ranSetup s"
  by (rule ext) (simp add: ranSetup_def)

lemma failingList_calls [simp]: "failingList (s\<lparr>calls := c\<rparr>) f = failingList s f"
  by (simp add: failingList_def)

lemma stoppedCalls_calls [simp]: "stoppedCalls (s\<lparr>calls := c\<rparr>) f = stoppedCalls s f"
  by (simp add: stoppedCalls_def failingPhase_def)

lemma beforeCalls_calls_fun [simp]: "beforeCalls (s\<lparr>calls := c\<rparr>) = beforeCalls s"
  by (rule ext) simp

lemma beforeLoop_ran:
  assumes "ranSetup s f"
  shows "beforeLoop (f # fs) s = beforeLoop fs (s\<lparr>calls := calls s @ beforeCalls s f\<rparr>)"
proof -
  let ?fr = "heap s ! f"
  have e: "allReturn (beforeEach ?fr)" using assms by (simp add: ranSetup_def)
  show ?thesis
  proof (cases "completed ?fr = 0")
    case True
    then have a: "allReturn (beforeAll ?fr)" using assms by (simp add: ranSetup_def failsInAll_def)
    show ?thesis using True allReturn_quiet[OF a] allReturn_quiet[OF e]
      by (simp add: callAll_def beforeCalls_def Let_def)
  next
    case False
    then show ?thesis using allReturn_quiet[OF e]
      by (simp add: callAll_def beforeCalls_def Let_def)
  qed
qed

lemma beforeLoop_stopped:
  assumes "\<not> ranSetup s f"
  shows "beforeLoop (f # fs) s =
           ((case firstThrow (failingList s f) of
               Some e \<Rightarrow> Some e | None \<Rightarrow> firstReject (failingList s f)),
            s\<lparr>calls := calls s @ stoppedCalls s f\<rparr>)"
proof -
  let ?fr = "heap s ! f"
  consider (a) "failsInAll s f"
    | (b) "completed ?fr = 0" "allReturn (beforeAll ?fr)" "\<not> allReturn (beforeEach ?fr)"
    | (c) "completed ?fr \<noteq> 0" "\<not> allReturn (beforeEach ?fr)"
    using assms by (auto simp: ranSetup_def failsInAll_def)
  then show ?thesis
  proof cases
    case a
    then have z: "completed ?fr = 0" and n: "\<not> allReturn (beforeAll ?fr)"
      by (simp_all add: failsInAll_def)
    obtain e where e: "firstThrow (beforeAll ?fr) = Some e
        \<or> firstThrow (beforeAll ?fr) = None \<and> firstReject (beforeAll ?fr) = Some e"
      using not_allReturn_fails[OF n] by blast
    show ?thesis using a z e
      by (auto simp: callAll_def Let_def stoppedCalls_def failingPhase_def failingList_def
                     invoked_calledUntilThrow)
  next
    case b
    then have nf: "\<not> failsInAll s f" by (simp add: failsInAll_def)
    obtain e where e: "firstThrow (beforeEach ?fr) = Some e
        \<or> firstThrow (beforeEach ?fr) = None \<and> firstReject (beforeEach ?fr) = Some e"
      using not_allReturn_fails[OF b(3)] by blast
    show ?thesis using b(1) nf e allReturn_quiet[OF b(2)]
      by (auto simp: callAll_def Let_def stoppedCalls_def failingPhase_def failingList_def
                     invoked_calledUntilThrow)
  next
    case c
    then have nf: "\<not> failsInAll s f" by (simp add: failsInAll_def)
    obtain e where e: "firstThrow (beforeEach ?fr) = Some e
        \<or> firstThrow (beforeEach ?fr) = None \<and> firstReject (beforeEach ?fr) = Some e"
      using not_allReturn_fails[OF c(2)] by blast
    show ?thesis using c(1) nf e
      by (auto simp: callAll_def Let_def stoppedCalls_def failingPhase_def failingList_def
                     invoked_calledUntilThrow)
  qed
qed

lemma beforeLoop_stops:
  assumes "list_all (ranSetup s) outer" and "\<not> ranSetup s f"
  shows "beforeLoop (outer @ f # inner) s =
           ((case firstThrow (failingList s f) of
               Some e \<Rightarrow> Some e | None \<Rightarrow> firstReject (failingList s f)),
            stoppedAt s outer f)"
  using assms
proof (induction outer arbitrary: s)
  case Nil
  then show ?case using beforeLoop_stopped[of s f inner]
    by (simp add: stoppedAt_def del: beforeLoop.simps)
next
  case (Cons g outer)
  let ?s = "s\<lparr>calls := calls s @ beforeCalls s g\<rparr>"
  have g: "ranSetup s g" and r: "list_all (ranSetup ?s) outer" and f: "\<not> ranSetup ?s f"
    using Cons.prems by simp_all
  have fl: "failingList ?s f = failingList s f" by simp
  have st: "stoppedAt ?s outer f = stoppedAt s (g # outer) f" by (simp add: stoppedAt_def)
  have "beforeLoop ((g # outer) @ f # inner) s = beforeLoop (outer @ f # inner) ?s"
    by (simp only: append_Cons beforeLoop_ran[OF g])
  also have "\<dots> = ((case firstThrow (failingList ?s f) of
               Some e \<Rightarrow> Some e | None \<Rightarrow> firstReject (failingList ?s f)),
            stoppedAt ?s outer f)"
    by (rule Cons.IH[OF r f])
  finally show ?case unfolding fl st .
qed

lemma beforeLoop_goes_through:
  "list_all (ranSetup s) fs \<Longrightarrow>
     beforeLoop fs s = (None, s\<lparr>calls := calls s @ concat (map (beforeCalls s) fs)\<rparr>)"
proof (induction fs arbitrary: s)
  case Nil
  then show ?case by simp
next
  case (Cons g fs)
  let ?s = "s\<lparr>calls := calls s @ beforeCalls s g\<rparr>"
  have g: "ranSetup s g" and r: "list_all (ranSetup ?s) fs" using Cons.prems by simp_all
  show ?case using beforeLoop_ran[OF g, of fs] Cons.IH[OF r] by (simp del: beforeLoop.simps)
qed

lemma setup_fails_iff:
  "fst (beforeLoop fs s) \<noteq> None \<longleftrightarrow>
     (\<exists>outer f inner. fs = outer @ f # inner \<and> list_all (ranSetup s) outer \<and> \<not> ranSetup s f)"
proof
  assume l: "fst (beforeLoop fs s) \<noteq> None"
  have "\<not> list_all (ranSetup s) fs" using l beforeLoop_goes_through[of s fs] by auto
  then obtain g where g: "g \<in> set fs" "\<not> ranSetup s g" by (auto simp: list_all_iff)
  then obtain outer f inner where "fs = outer @ f # inner" "\<not> ranSetup s f"
      "\<forall>x \<in> set outer. ranSetup s x"
    using split_list_first_prop[of fs "\<lambda>x. \<not> ranSetup s x"] by auto
  then show "\<exists>outer f inner. fs = outer @ f # inner \<and> list_all (ranSetup s) outer \<and> \<not> ranSetup s f"
    by (auto simp: list_all_iff)
next
  assume "\<exists>outer f inner. fs = outer @ f # inner \<and> list_all (ranSetup s) outer \<and> \<not> ranSetup s f"
  then obtain outer f inner where s: "fs = outer @ f # inner" "list_all (ranSetup s) outer"
      "\<not> ranSetup s f" by blast
  have n: "\<not> allReturn (failingList s f)"
    using s(3) by (auto simp: ranSetup_def failingList_def failsInAll_def)
  show "fst (beforeLoop fs s) \<noteq> None"
    using beforeLoop_stops[OF s(2,3), of inner] not_allReturn_fails[OF n] s(1) by auto
qed








end
